theory Spec2Isabelle
  imports Complex_Main "HOL-Library.Word" "HOL-Library.Sublist"
begin

section \<open>Platform values: bytes, strings, JavaScript values\<close>

text \<open>
  The repository holds three revisions of one request handler (\<^verbatim>\<open>src/src/fis.ts\<close>,
  \<^verbatim>\<open>src/unnamed/part_000\<close>, \<^verbatim>\<open>src/unnamed/part_001\<close>).  Each is embedded on its own;
  definitions carry the suffix \<open>_fis\<close>, \<open>_p000\<close> or \<open>_p001\<close>, and code that is
  textually the same in several revisions is embedded once.

  A network chunk is a \<^verbatim>\<open>Uint8Array\<close>, a list of bytes.  A JavaScript string is a
  sequence of UTF-16 code units, so \<open>length\<close> is the \<^verbatim>\<open>.length\<close> of the source.
\<close>

type_synonym byte = "8 word"
type_synonym jstring = "16 word list"

definition lit :: "string \<Rightarrow> jstring" where
  "lit s = map of_char s"

definition ascii :: "string \<Rightarrow> byte list" where
  "ascii s = map of_char s"

subsection \<open>String built-ins used by the handlers\<close>

text \<open>\<^verbatim>\<open>String.prototype.trim\<close> strips WhiteSpace and LineTerminator code units.\<close>

definition is_ws :: "16 word \<Rightarrow> bool" where
  "is_ws c = (c = 0x09 \<or> c = 0x0A \<or> c = 0x0B \<or> c = 0x0C \<or> c = 0x0D \<or> c = 0x20
     \<or> c = 0xA0 \<or> c = 0x1680 \<or> (0x2000 \<le> c \<and> c \<le> 0x200A) \<or> c = 0x2028 \<or> c = 0x2029
     \<or> c = 0x202F \<or> c = 0x205F \<or> c = 0x3000 \<or> c = 0xFEFF)"

definition trim :: "jstring \<Rightarrow> jstring" where
  "trim s = rev (dropWhile is_ws (rev (dropWhile is_ws s)))"

definition startsWith :: "jstring \<Rightarrow> jstring \<Rightarrow> bool" where
  "startsWith s p = (take (length p) s = p)"

text \<open>\<^verbatim>\<open>s.slice(6)\<close> is \<open>drop 6 s\<close>.  \<^verbatim>\<open>s.split('\n')\<close>: the segments between newlines;
  a string with \<open>n\<close> newlines has \<open>n + 1\<close> segments.\<close>

fun split_nl :: "jstring \<Rightarrow> jstring list" where
  "split_nl [] = [[]]"
| "split_nl (c # cs) =
     (if c = 0x0A then [] # split_nl cs
      else (case split_nl cs of [] \<Rightarrow> [[c]] | l # ls \<Rightarrow> (c # l) # ls))"

text \<open>\<^verbatim>\<open>lines.pop()\<close> removes and returns the last element, \<^verbatim>\<open>undefined\<close> on an
  empty array; both \<^verbatim>\<open>|| ''\<close> and \<^verbatim>\<open>?? ""\<close> turn that into the empty string and leave
  a string as it is.  The result is the popped tail and the remaining lines.\<close>

definition pop_or_empty :: "jstring list \<Rightarrow> jstring \<times> jstring list" where
  "pop_or_empty segs = (case rev segs of [] \<Rightarrow> ([], []) | x # r \<Rightarrow> (x, rev r))"

text \<open>Iterating a string with \<^verbatim>\<open>for ... of\<close> yields its code points: a surrogate pair is
  one element.\<close>

fun code_points :: "jstring \<Rightarrow> jstring list" where
  "code_points (a # b # cs) =
     (if 0xD800 \<le> a \<and> a \<le> 0xDBFF \<and> 0xDC00 \<le> b \<and> b \<le> 0xDFFF
      then [a, b] # code_points cs else [a] # code_points (b # cs))"
| "code_points [a] = [[a]]"
| "code_points [] = []"

subsection \<open>JavaScript values\<close>

text \<open>The values \<^verbatim>\<open>JSON.parse\<close> can return, and \<^verbatim>\<open>undefined\<close>, which a read of a missing
  property gives.  A number is kept as the exact value of its literal; the double it
  rounds to is zero exactly when that value is at most \<open>1 / 2 ^ 1075\<close> in magnitude (half the least subnormal; a tie rounds to even).  The members
  of an object are listed most recent first, so that \<open>map_of\<close> finds the last duplicate,
  as \<^verbatim>\<open>JSON.parse\<close> keeps it.\<close>

datatype jsval =
    JUndefined
  | JNull
  | JBool bool
  | JNum rat
  | JStr jstring
  | JArr "jsval list"
  | JObj "(jstring \<times> jsval) list"

definition is_zero :: "rat \<Rightarrow> bool" where
  "is_zero r = (\<bar>r\<bar> \<le> 1 / 2 ^ 1075)"

fun truthy :: "jsval \<Rightarrow> bool" where
  "truthy JUndefined = False"
| "truthy JNull = False"
| "truthy (JBool b) = b"
| "truthy (JNum r) = (\<not> is_zero r)"
| "truthy (JStr s) = (s \<noteq> [])"
| "truthy (JArr xs) = True"
| "truthy (JObj kvs) = True"

text \<open>A property read \<^verbatim>\<open>v.k\<close>, for the names the handlers read (\<^verbatim>\<open>type\<close>, \<^verbatim>\<open>content\<close>,
  \<^verbatim>\<open>tool_calls\<close>, \<^verbatim>\<open>messages\<close>, \<^verbatim>\<open>length\<close>, \<^verbatim>\<open>thread_id\<close>, \<^verbatim>\<open>id\<close>, \<^verbatim>\<open>uuid\<close>: none is an array
  index or a member of a built-in prototype other than \<^verbatim>\<open>length\<close>).  \<open>None\<close> is the
  \<^verbatim>\<open>TypeError\<close> of reading a property of \<^verbatim>\<open>null\<close> or \<^verbatim>\<open>undefined\<close>.\<close>

fun get :: "jsval \<Rightarrow> jstring \<Rightarrow> jsval option" where
  "get JUndefined k = None"
| "get JNull k = None"
| "get (JBool b) k = Some JUndefined"
| "get (JNum r) k = Some JUndefined"
| "get (JStr s) k = Some (if k = lit ''length'' then JNum (of_nat (length s)) else JUndefined)"
| "get (JArr xs) k = Some (if k = lit ''length'' then JNum (of_nat (length xs)) else JUndefined)"
| "get (JObj kvs) k = Some (case map_of kvs k of None \<Rightarrow> JUndefined | Some v \<Rightarrow> v)"

text \<open>\<^verbatim>\<open>typeof v === 'string'\<close>, \<^verbatim>\<open>Array.isArray(v)\<close>, \<^verbatim>\<open>v === 0\<close>.\<close>

fun is_string :: "jsval \<Rightarrow> bool" where
  "is_string (JStr s) = True"
| "is_string v = False"

fun isArray :: "jsval \<Rightarrow> bool" where
  "isArray (JArr xs) = True"
| "isArray v = False"

fun equals_zero :: "jsval \<Rightarrow> bool" where
  "equals_zero (JNum r) = is_zero r"
| "equals_zero v = False"

subsection \<open>\<^verbatim>\<open>TextDecoder\<close>: streaming UTF-8 decoding\<close>

text \<open>\<^verbatim>\<open>new TextDecoder()\<close> with \<^verbatim>\<open>decode(value, {stream: true})\<close>: the UTF-8 decoder of the
  Encoding Standard, which consumes one byte at a time, keeps an unfinished sequence
  across calls, replaces an ill-formed sequence by U+FFFD and drops a byte order mark
  at the start of the stream.  The handlers never flush it.\<close>

record decoder =
  code_point :: nat
  bytes_seen :: nat
  bytes_needed :: nat
  lower_boundary :: nat
  upper_boundary :: nat
  bom_seen :: bool

definition new_decoder :: decoder where
  "new_decoder = \<lparr>code_point = 0, bytes_seen = 0, bytes_needed = 0,
     lower_boundary = 0x80, upper_boundary = 0xBF, bom_seen = False\<rparr>"

definition utf16 :: "nat \<Rightarrow> jstring" where
  "utf16 cp =
     (if cp < 0x10000 then [of_nat cp]
      else [of_nat (0xD800 + (cp - 0x10000) div 0x400), of_nat (0xDC00 + (cp - 0x10000) mod 0x400)])"

definition emit :: "decoder \<Rightarrow> nat \<Rightarrow> decoder \<times> jstring" where
  "emit d cp = (d\<lparr>bom_seen := True\<rparr>, if \<not> bom_seen d \<and> cp = 0xFEFF then [] else utf16 cp)"

definition reset :: "decoder \<Rightarrow> decoder" where
  "reset d = d\<lparr>code_point := 0, bytes_seen := 0, bytes_needed := 0,
     lower_boundary := 0x80, upper_boundary := 0xBF\<rparr>"

definition lead_byte :: "decoder \<Rightarrow> nat \<Rightarrow> decoder \<times> jstring" where
  "lead_byte d b =
     (if b \<le> 0x7F then emit d b
      else if 0xC2 \<le> b \<and> b \<le> 0xDF then (d\<lparr>bytes_needed := 1, code_point := b - 0xC0\<rparr>, [])
      else if 0xE0 \<le> b \<and> b \<le> 0xEF then
        (d\<lparr>lower_boundary := (if b = 0xE0 then 0xA0 else lower_boundary d),
           upper_boundary := (if b = 0xED then 0x9F else upper_boundary d),
           bytes_needed := 2, code_point := b - 0xE0\<rparr>, [])
      else if 0xF0 \<le> b \<and> b \<le> 0xF4 then
        (d\<lparr>lower_boundary := (if b = 0xF0 then 0x90 else lower_boundary d),
           upper_boundary := (if b = 0xF4 then 0x8F else upper_boundary d),
           bytes_needed := 3, code_point := b - 0xF0\<rparr>, [])
      else emit d 0xFFFD)"

definition decode_byte :: "decoder \<Rightarrow> byte \<Rightarrow> decoder \<times> jstring" where
  "decode_byte d w =
     (let b = unat w in
      if bytes_needed d = 0 then lead_byte d b
      else if b < lower_boundary d \<or> upper_boundary d < b then
        (let (d1, o1) = emit (reset d) 0xFFFD; (d2, o2) = lead_byte d1 b in (d2, o1 @ o2))
      else
        (let d' = d\<lparr>lower_boundary := 0x80, upper_boundary := 0xBF,
                    code_point := code_point d * 64 + (b - 0x80),
                    bytes_seen := bytes_seen d + 1\<rparr>
         in if bytes_seen d' \<noteq> bytes_needed d' then (d', [])
            else emit (reset d') (code_point d')))"

fun decode :: "decoder \<Rightarrow> byte list \<Rightarrow> decoder \<times> jstring" where
  "decode d [] = (d, [])"
| "decode d (w # ws) =
     (let (d1, o1) = decode_byte d w; (d2, o2) = decode d1 ws in (d2, o1 @ o2))"

subsection \<open>\<^verbatim>\<open>JSON.parse\<close>\<close>

text \<open>The JSON grammar of ECMA-404 as \<^verbatim>\<open>JSON.parse\<close> reads it: a lexer, then a pushdown
  automaton over the tokens.  \<open>None\<close> is the \<^verbatim>\<open>SyntaxError\<close>.\<close>

datatype token =
    TLBrace | TRBrace | TLBracket | TRBracket | TColon | TComma
  | TString jstring | TNumber rat | TTrue | TFalse | TNull

definition is_digit :: "16 word \<Rightarrow> bool" where
  "is_digit c = (0x30 \<le> c \<and> c \<le> 0x39)"

definition hex_value :: "16 word \<Rightarrow> nat option" where
  "hex_value c =
     (if 0x30 \<le> c \<and> c \<le> 0x39 then Some (unat c - 0x30)
      else if 0x41 \<le> c \<and> c \<le> 0x46 then Some (unat c - 0x41 + 10)
      else if 0x61 \<le> c \<and> c \<le> 0x66 then Some (unat c - 0x61 + 10)
      else None)"

fun hex4 :: "jstring \<Rightarrow> 16 word option" where
  "hex4 [a, b, c, d] =
     (case (hex_value a, hex_value b, hex_value c, hex_value d) of
        (Some x, Some y, Some z, Some w) \<Rightarrow> Some (of_nat (((x * 16 + y) * 16 + z) * 16 + w))
      | _ \<Rightarrow> None)"
| "hex4 s = None"

definition escape :: "16 word \<Rightarrow> 16 word option" where
  "escape e =
     (if e = 0x22 then Some 0x22 else if e = 0x5C then Some 0x5C
      else if e = 0x2F then Some 0x2F else if e = 0x62 then Some 0x08
      else if e = 0x66 then Some 0x0C else if e = 0x6E then Some 0x0A
      else if e = 0x72 then Some 0x0D else if e = 0x74 then Some 0x09
      else None)"

text \<open>The characters of a string token after its opening quote; the result is the
  string and the input after the closing quote.\<close>

fun lex_string :: "jstring \<Rightarrow> jstring \<Rightarrow> (jstring \<times> jstring) option" where
  "lex_string [] acc = None"
| "lex_string (c # cs) acc =
     (if c = 0x22 then Some (rev acc, cs)
      else if c = 0x5C then
        (case cs of
           [] \<Rightarrow> None
         | e # es \<Rightarrow>
             if e = 0x75 then
               (case hex4 (take 4 es) of
                  None \<Rightarrow> None
                | Some u \<Rightarrow> lex_string (drop 4 es) (u # acc))
             else
               (case escape e of
                  None \<Rightarrow> None
                | Some x \<Rightarrow> lex_string es (x # acc)))
      else if c < 0x20 then None
      else lex_string cs (c # acc))"

definition digits_value :: "jstring \<Rightarrow> nat" where
  "digits_value ds = foldl (\<lambda>n c. n * 10 + (unat c - 0x30)) 0 ds"

text \<open>A number token: \<^verbatim>\<open>-? (0 | [1-9][0-9]*) (. [0-9]+)? ([eE] [+-]? [0-9]+)?\<close>, read in
  four stages; each returns what it read and the rest of the input.\<close>

definition lex_sign :: "jstring \<Rightarrow> bool \<times> jstring" where
  "lex_sign s = (if startsWith s (lit ''-'') then (True, drop 1 s) else (False, s))"

definition lex_digits :: "jstring \<Rightarrow> jstring \<times> jstring" where
  "lex_digits s = (takeWhile is_digit s, dropWhile is_digit s)"

definition lex_fraction :: "jstring \<Rightarrow> (jstring \<times> jstring) option" where
  "lex_fraction s =
     (if startsWith s (lit ''.'') then
        (case lex_digits (drop 1 s) of (fp, rest) \<Rightarrow> if fp = [] then None else Some (fp, rest))
      else Some ([], s))"

definition lex_exponent_sign :: "jstring \<Rightarrow> bool \<times> jstring" where
  "lex_exponent_sign s =
     (if startsWith s (lit ''+'') then (False, drop 1 s)
      else if startsWith s (lit ''-'') then (True, drop 1 s)
      else (False, s))"

definition lex_exponent :: "jstring \<Rightarrow> (int \<times> jstring) option" where
  "lex_exponent s =
     (if startsWith s (lit ''e'') \<or> startsWith s (lit ''E'') then
        (case lex_exponent_sign (drop 1 s) of
           (neg, s') \<Rightarrow>
             (case lex_digits s' of
                (ep, rest) \<Rightarrow>
                  if ep = [] then None
                  else Some (if neg then - int (digits_value ep) else int (digits_value ep), rest)))
      else Some (0, s))"

definition lex_number :: "jstring \<Rightarrow> (rat \<times> jstring) option" where
  "lex_number s =
     (case lex_sign s of
        (neg, s1) \<Rightarrow>
          (case lex_digits s1 of
             (ip, s2) \<Rightarrow>
               if ip = [] \<or> (1 < length ip \<and> startsWith ip (lit ''0'')) then None
               else
                 (case lex_fraction s2 of
                    None \<Rightarrow> None
                  | Some (fp, s3) \<Rightarrow>
                      (case lex_exponent s3 of
                         None \<Rightarrow> None
                       | Some (e, s4) \<Rightarrow>
                           (let m = of_nat (digits_value (ip @ fp)) / 10 ^ length fp;
                                v = (if e < 0 then m / 10 ^ nat (- e) else m * 10 ^ nat e)
                            in Some (if neg then - v else v, s4))))))"

lemma length_dropWhile_less:
  "takeWhile P xs \<noteq> [] \<Longrightarrow> length (dropWhile P xs) < length xs"
  by (cases xs) (auto simp: le_imp_less_Suc length_dropWhile_le split: if_splits)

lemma lex_string_length:
  "lex_string cs acc = Some (s, rest) \<Longrightarrow> length rest \<le> length cs"
proof (induction cs acc rule: lex_string.induct)
  case (1 acc)
  then show ?case by simp
next
  case (2 c cs acc)
  show ?case
  proof (cases "c = 0x22")
    case True
    with "2.prems" show ?thesis by simp
  next
    case quote: False
    show ?thesis
    proof (cases "c = 0x5C")
      case True
      with quote "2.prems" obtain e es where cs: "cs = e # es"
        by (cases cs) auto
      show ?thesis
      proof (cases "e = 0x75")
        case u: True
        with True quote cs "2.prems" obtain v where
          h: "hex4 (take 4 es) = Some v" and r: "lex_string (drop 4 es) (v # acc) = Some (s, rest)"
          by (auto split: option.splits)
        from "2.IH"(1)[OF quote True cs u h r] cs show ?thesis by simp
      next
        case nu: False
        with True quote cs "2.prems" obtain x where
          h: "escape e = Some x" and r: "lex_string es (x # acc) = Some (s, rest)"
          by (auto split: option.splits)
        from "2.IH"(2)[OF quote True cs nu h r] cs show ?thesis by simp
      qed
    next
      case False
      with quote "2.prems" have r: "lex_string cs (c # acc) = Some (s, rest)" and lt: "\<not> c < 0x20"
        by (auto split: if_splits)
      from "2.IH"(3)[OF quote False lt r] show ?thesis by simp
    qed
  qed
qed

lemma lex_sign_length: "lex_sign s = (neg, rest) \<Longrightarrow> length rest \<le> length s"
  by (auto simp: lex_sign_def split: if_splits)

lemma lex_digits_length: "lex_digits s = (ds, rest) \<Longrightarrow> length rest \<le> length s"
  by (auto simp: lex_digits_def length_dropWhile_le)

lemma lex_digits_length_less:
  "lex_digits s = (ds, rest) \<Longrightarrow> ds \<noteq> [] \<Longrightarrow> length rest < length s"
  by (auto simp: lex_digits_def length_dropWhile_less)

lemma lex_fraction_length: "lex_fraction s = Some (fp, rest) \<Longrightarrow> length rest \<le> length s"
proof -
  assume a: "lex_fraction s = Some (fp, rest)"
  show ?thesis
  proof (cases "startsWith s (lit ''.'')")
    case True
    with a have "lex_digits (drop 1 s) = (fp, rest)"
      by (auto simp: lex_fraction_def split: prod.splits if_splits)
    from lex_digits_length [OF this] show ?thesis by simp
  next
    case False
    with a show ?thesis by (simp add: lex_fraction_def)
  qed
qed

lemma lex_exponent_length: "lex_exponent s = Some (e, rest) \<Longrightarrow> length rest \<le> length s"
proof -
  assume a: "lex_exponent s = Some (e, rest)"
  show ?thesis
  proof (cases "startsWith s (lit ''e'') \<or> startsWith s (lit ''E'')")
    case True
    obtain neg s' where sg: "lex_exponent_sign (drop 1 s) = (neg, s')"
      by (cases "lex_exponent_sign (drop 1 s)")
    obtain ep r where dg: "lex_digits s' = (ep, r)" by (cases "lex_digits s'")
    from a True sg dg have "rest = r"
      by (auto simp: lex_exponent_def split: if_splits)
    moreover from sg have "length s' \<le> length s"
      by (auto simp: lex_exponent_sign_def split: if_splits)
    ultimately show ?thesis
      using lex_digits_length [OF dg] by simp
  next
    case False
    with a show ?thesis by (simp add: lex_exponent_def)
  qed
qed

lemma lex_number_length:
  assumes "lex_number s = Some (r, rest)"
  shows "length rest < length s"
proof -
  obtain neg s1 where sg: "lex_sign s = (neg, s1)" by (cases "lex_sign s")
  obtain ip s2 where dg: "lex_digits s1 = (ip, s2)" by (cases "lex_digits s1")
  from assms sg dg have ip: "ip \<noteq> []"
    by (auto simp: lex_number_def split: if_splits)
  with assms sg dg obtain fp s3 where fr: "lex_fraction s2 = Some (fp, s3)"
    by (cases "lex_fraction s2") (auto simp: lex_number_def split: if_splits)
  with assms sg dg ip obtain e s4 where ex: "lex_exponent s3 = Some (e, s4)"
    by (cases "lex_exponent s3") (auto simp: lex_number_def split: if_splits)
  with assms sg dg ip fr have "rest = s4"
    by (auto simp: lex_number_def Let_def split: if_splits)
  then show ?thesis
    using lex_sign_length [OF sg] lex_digits_length_less [OF dg ip]
      lex_fraction_length [OF fr] lex_exponent_length [OF ex]
    by simp
qed

function lex :: "jstring \<Rightarrow> token list option" where
  "lex [] = Some []"
| "lex (c # cs) =
     (if c = 0x20 \<or> c = 0x09 \<or> c = 0x0A \<or> c = 0x0D then lex cs
      else if c = 0x7B then map_option ((#) TLBrace) (lex cs)
      else if c = 0x7D then map_option ((#) TRBrace) (lex cs)
      else if c = 0x5B then map_option ((#) TLBracket) (lex cs)
      else if c = 0x5D then map_option ((#) TRBracket) (lex cs)
      else if c = 0x3A then map_option ((#) TColon) (lex cs)
      else if c = 0x2C then map_option ((#) TComma) (lex cs)
      else if c = 0x22 then
        (case lex_string cs [] of
           None \<Rightarrow> None
         | Some (s, rest) \<Rightarrow> map_option ((#) (TString s)) (lex rest))
      else if c = 0x2D \<or> is_digit c then
        (case lex_number (c # cs) of
           None \<Rightarrow> None
         | Some (r, rest) \<Rightarrow> map_option ((#) (TNumber r)) (lex rest))
      else if startsWith (c # cs) (lit ''true'') then map_option ((#) TTrue) (lex (drop 3 cs))
      else if startsWith (c # cs) (lit ''false'') then map_option ((#) TFalse) (lex (drop 4 cs))
      else if startsWith (c # cs) (lit ''null'') then map_option ((#) TNull) (lex (drop 3 cs))
      else None)"
  by pat_completeness auto
termination
proof (relation "measure length")
  show "wf (measure length)" by simp
qed (auto dest!: lex_string_length lex_number_length)

text \<open>The automaton: a stack of open containers and what may come next.  An array frame
  holds its elements so far, last first; an object frame its members so far, last
  first, and the key whose value is being read.\<close>

datatype frame = FArr "jsval list" | FObj "(jstring \<times> jsval) list" jstring

datatype expect =
    EValue | EValueOrClose | EKeyOrClose | EKey | EColon | ENext | EFinished jsval

fun reduce :: "jsval \<Rightarrow> frame list \<Rightarrow> frame list \<times> expect" where
  "reduce v [] = ([], EFinished v)"
| "reduce v (FArr xs # st) = (FArr (v # xs) # st, ENext)"
| "reduce v (FObj ms k # st) = (FObj ((k, v) # ms) k # st, ENext)"

fun value_token :: "token \<Rightarrow> frame list \<Rightarrow> (frame list \<times> expect) option" where
  "value_token (TString s) st = Some (reduce (JStr s) st)"
| "value_token (TNumber r) st = Some (reduce (JNum r) st)"
| "value_token TTrue st = Some (reduce (JBool True) st)"
| "value_token TFalse st = Some (reduce (JBool False) st)"
| "value_token TNull st = Some (reduce JNull st)"
| "value_token TLBracket st = Some (FArr [] # st, EValueOrClose)"
| "value_token TLBrace st = Some (FObj [] [] # st, EKeyOrClose)"
| "value_token t st = None"

fun key_token :: "token \<Rightarrow> frame list \<Rightarrow> (frame list \<times> expect) option" where
  "key_token (TString k) (FObj ms k0 # st) = Some (FObj ms k # st, EColon)"
| "key_token t st = None"

fun close_token :: "token \<Rightarrow> frame list \<Rightarrow> (frame list \<times> expect) option" where
  "close_token TRBracket (FArr xs # st) = Some (reduce (JArr (rev xs)) st)"
| "close_token TRBrace (FObj ms k # st) = Some (reduce (JObj ms) st)"
| "close_token t st = None"

fun next_token :: "token \<Rightarrow> frame list \<Rightarrow> (frame list \<times> expect) option" where
  "next_token TComma (FArr xs # st) = Some (FArr xs # st, EValue)"
| "next_token TComma (FObj ms k # st) = Some (FObj ms k # st, EKey)"
| "next_token t st = close_token t st"

fun parse_step :: "frame list \<times> expect \<Rightarrow> token \<Rightarrow> (frame list \<times> expect) option" where
  "parse_step (st, EValue) t = value_token t st"
| "parse_step (st, EValueOrClose) t = (if t = TRBracket then close_token t st else value_token t st)"
| "parse_step (st, EKeyOrClose) t = (if t = TRBrace then close_token t st else key_token t st)"
| "parse_step (st, EKey) t = key_token t st"
| "parse_step (st, EColon) t = (if t = TColon then Some (st, EValue) else None)"
| "parse_step (st, ENext) t = next_token t st"
| "parse_step (st, EFinished v) t = None"

fun parse_tokens :: "frame list \<times> expect \<Rightarrow> token list \<Rightarrow> (frame list \<times> expect) option" where
  "parse_tokens q [] = Some q"
| "parse_tokens q (t # ts) = (case parse_step q t of None \<Rightarrow> None | Some q' \<Rightarrow> parse_tokens q' ts)"

definition json_parse :: "jstring \<Rightarrow> jsval option" where
  "json_parse s =
     (case lex s of
        None \<Rightarrow> None
      | Some ts \<Rightarrow>
          (case parse_tokens ([], EValue) ts of
             Some ([], EFinished v) \<Rightarrow> Some v
           | _ \<Rightarrow> None))"

section \<open>The stream reassembler\<close>

subsection \<open>Extraction from a decoded record\<close>

text \<open>The test \<^verbatim>\<open>(!msg.tool_calls || msg.tool_calls.length === 0)\<close>, the same in the three
  revisions.  \<open>None\<close> is a thrown \<^verbatim>\<open>TypeError\<close>.\<close>

definition no_tool_calls :: "jsval \<Rightarrow> bool option" where
  "no_tool_calls msg =
     (case get msg (lit ''tool_calls'') of
        None \<Rightarrow> None
      | Some tc \<Rightarrow>
          if \<not> truthy tc then Some True
          else (case get tc (lit ''length'') of None \<Rightarrow> None | Some n \<Rightarrow> Some (equals_zero n)))"

fun string_of :: "jsval \<Rightarrow> jstring" where
  "string_of (JStr s) = s"
| "string_of v = []"

text \<open>One pass of the body of \<^verbatim>\<open>for (const msg of ...)\<close>: the values handed to
  \<^verbatim>\<open>stream.write(createTextEvent(msg.content))\<close>, or \<open>None\<close> when the body throws.
  \<^verbatim>\<open>part_000\<close> lines 157-166 and \<^verbatim>\<open>part_001\<close> lines 207-216 are the same text.\<close>

definition ai_entry :: "jsval \<Rightarrow> jsval list option" where
  "ai_entry msg =
     (case get msg (lit ''type'') of
        None \<Rightarrow> None
      | Some ty \<Rightarrow>
          if ty \<noteq> JStr (lit ''ai'') then Some []
          else
            (case get msg (lit ''content'') of
               None \<Rightarrow> None
             | Some content \<Rightarrow>
                 if \<not> truthy content then Some []
                 else if \<not> is_string content then Some []
                 else if trim (string_of content) = [] then Some []
                 else
                   (case no_tool_calls msg of
                      None \<Rightarrow> None
                    | Some ok \<Rightarrow> Some (if ok then [content] else []))))"

text \<open>\<^verbatim>\<open>fis.ts\<close> lines 159-165 and 176-182: no test of the type of \<^verbatim>\<open>content\<close>.\<close>

definition ai_entry_fis :: "jsval \<Rightarrow> jsval list option" where
  "ai_entry_fis msg =
     (case get msg (lit ''type'') of
        None \<Rightarrow> None
      | Some ty \<Rightarrow>
          if ty \<noteq> JStr (lit ''ai'') then Some []
          else
            (case get msg (lit ''content'') of
               None \<Rightarrow> None
             | Some content \<Rightarrow>
                 if \<not> truthy content then Some []
                 else
                   (case no_tool_calls msg of
                      None \<Rightarrow> None
                    | Some ok \<Rightarrow> Some (if ok then [content] else []))))"

text \<open>The \<^verbatim>\<open>for ... of\<close> loop over the entries: what was written, and whether the loop
  ran to its end (\<open>False\<close>: an entry threw, and the entries after it were not seen).\<close>

fun for_of :: "(jsval \<Rightarrow> jsval list option) \<Rightarrow> jsval list \<Rightarrow> jsval list \<times> bool" where
  "for_of body [] = ([], True)"
| "for_of body (m # ms) =
     (case body m of
        None \<Rightarrow> ([], False)
      | Some w \<Rightarrow> (case for_of body ms of (ws, finished) \<Rightarrow> (w @ ws, finished)))"

fun elements :: "jsval \<Rightarrow> jsval list" where
  "elements (JArr xs) = xs"
| "elements v = []"

text \<open>What \<^verbatim>\<open>for ... of\<close> iterates: an array's elements, a string's code points;
  \<open>None\<close> is the \<^verbatim>\<open>TypeError\<close> for a value that is not iterable.\<close>

fun iterate :: "jsval \<Rightarrow> jsval list option" where
  "iterate (JArr xs) = Some xs"
| "iterate (JStr s) = Some (map JStr (code_points s))"
| "iterate v = None"

text \<open>The statements after \<^verbatim>\<open>JSON.parse\<close> inside the \<^verbatim>\<open>try\<close>: the writes made, and whether
  the block ran to its end.  \<^verbatim>\<open>part_000\<close> lines 154-168.\<close>

definition extract_p000 :: "jsval \<Rightarrow> jsval list \<times> bool" where
  "extract_p000 eventObj =
     (case get eventObj (lit ''messages'') of
        None \<Rightarrow> ([], False)
      | Some ms \<Rightarrow>
          if truthy ms \<and> isArray ms then for_of ai_entry (elements ms) else ([], True))"

text \<open>\<^verbatim>\<open>part_001\<close> lines 204-224: the same loop, then the top-level \<^verbatim>\<open>content\<close>.\<close>

definition extract_p001 :: "jsval \<Rightarrow> jsval list \<times> bool" where
  "extract_p001 eventObj =
     (case extract_p000 eventObj of
        (ws, finished) \<Rightarrow>
          if \<not> finished then (ws, False)
          else
            (case get eventObj (lit ''content'') of
               None \<Rightarrow> (ws, False)
             | Some content \<Rightarrow>
                 if truthy content \<and> is_string content then (ws @ [content], True)
                 else (ws, True)))"

text \<open>\<^verbatim>\<open>fis.ts\<close> lines 157-166 and 174-183: \<^verbatim>\<open>eventObj.messages ?? []\<close>, then the loop.\<close>

definition extract_fis :: "jsval \<Rightarrow> jsval list \<times> bool" where
  "extract_fis eventObj =
     (case get eventObj (lit ''messages'') of
        None \<Rightarrow> ([], False)
      | Some ms \<Rightarrow>
          (case iterate (if ms = JUndefined \<or> ms = JNull then JArr [] else ms) of
             None \<Rightarrow> ([], False)
           | Some msgs \<Rightarrow> for_of ai_entry_fis msgs))"

text \<open>\<^verbatim>\<open>try { const eventObj = JSON.parse(data); ... } catch (e) { }\<close>: a \<^verbatim>\<open>SyntaxError\<close> of
  the parse and a \<^verbatim>\<open>TypeError\<close> of the block both end in the \<^verbatim>\<open>catch\<close>, which only logs;
  what was written before stays written.  The decoder \<open>parse\<close> is a parameter.\<close>

definition try_parse ::
  "(jstring \<Rightarrow> jsval option) \<Rightarrow> (jsval \<Rightarrow> jsval list \<times> bool) \<Rightarrow> jstring \<Rightarrow> jsval list" where
  "try_parse parse extract data =
     (case parse data of None \<Rightarrow> [] | Some eventObj \<Rightarrow> fst (extract eventObj))"

subsection \<open>One line\<close>

text \<open>\<^verbatim>\<open>part_000\<close> lines 146-173.\<close>

definition line_p000 :: "(jstring \<Rightarrow> jsval option) \<Rightarrow> jstring \<Rightarrow> jsval list" where
  "line_p000 parse l =
     (let line = trim l in
      if startsWith line (lit ''data: {'') then try_parse parse extract_p000 (drop 6 line)
      else [])"

text \<open>\<^verbatim>\<open>part_001\<close> lines 188-230.\<close>

definition line_p001 :: "(jstring \<Rightarrow> jsval option) \<Rightarrow> jstring \<Rightarrow> jsval list" where
  "line_p001 parse line =
     (let trimmedLine = trim line in
      if trimmedLine = [] then []
      else if startsWith trimmedLine (lit ''data: '') then
        (let data = trim (drop 6 trimmedLine) in
         if data = [] \<or> data = lit ''ping'' then []
         else if startsWith data (lit ''{'') then try_parse parse extract_p001 data
         else [])
      else [])"

text \<open>\<^verbatim>\<open>fis.ts\<close> lines 144-188.  \<open>buffer\<close> is the pending buffer after \<^verbatim>\<open>lines.pop()\<close>, which
  the second branch reads.\<close>

definition line_fis :: "(jstring \<Rightarrow> jsval option) \<Rightarrow> jstring \<Rightarrow> jstring \<Rightarrow> jsval list" where
  "line_fis parse buffer l =
     (let line = trim l in
      if startsWith line (lit ''event: values'') then
        (let dataLine = line in
         if \<not> startsWith dataLine (lit ''data: '') then []
         else try_parse parse extract_fis (drop 6 dataLine))
      else if startsWith line (lit ''data: {'') \<and> length buffer < 4096 then
        try_parse parse extract_fis (drop 6 line)
      else [])"

subsection \<open>One chunk\<close>

text \<open>The state that lives across reads: the \<^verbatim>\<open>TextDecoder\<close> and \<^verbatim>\<open>buffer\<close>.\<close>

record reassembler =
  decoder :: decoder
  buffer :: jstring

definition new_reassembler :: reassembler where
  "new_reassembler = \<lparr>decoder = new_decoder, buffer = []\<rparr>"

text \<open>\<^verbatim>\<open>buffer += decoder.decode(value, { stream: true }); lines = buffer.split('\n');
  buffer = lines.pop() || ''; for (const line of lines) ...\<close>: the new state and the values
  written, in order.  \<^verbatim>\<open>part_000\<close> lines 138-174, \<^verbatim>\<open>part_001\<close> lines 180-231,
  \<^verbatim>\<open>fis.ts\<close> lines 139-189.\<close>

definition feed_p000 ::
  "(jstring \<Rightarrow> jsval option) \<Rightarrow> reassembler \<Rightarrow> byte list \<Rightarrow> reassembler \<times> jsval list" where
  "feed_p000 parse r val =
     (case decode (decoder r) val of
        (d, chunk) \<Rightarrow>
          (case pop_or_empty (split_nl (buffer r @ chunk)) of
             (buf, lines) \<Rightarrow>
               (\<lparr>decoder = d, buffer = buf\<rparr>, concat (map (line_p000 parse) lines))))"

definition feed_p001 ::
  "(jstring \<Rightarrow> jsval option) \<Rightarrow> reassembler \<Rightarrow> byte list \<Rightarrow> reassembler \<times> jsval list" where
  "feed_p001 parse r val =
     (case decode (decoder r) val of
        (d, chunk) \<Rightarrow>
          (case pop_or_empty (split_nl (buffer r @ chunk)) of
             (buf, lines) \<Rightarrow>
               (\<lparr>decoder = d, buffer = buf\<rparr>, concat (map (line_p001 parse) lines))))"

definition feed_fis ::
  "(jstring \<Rightarrow> jsval option) \<Rightarrow> reassembler \<Rightarrow> byte list \<Rightarrow> reassembler \<times> jsval list" where
  "feed_fis parse r val =
     (case decode (decoder r) val of
        (d, chunk) \<Rightarrow>
          (case pop_or_empty (split_nl (buffer r @ chunk)) of
             (buf, lines) \<Rightarrow>
               (\<lparr>decoder = d, buffer = buf\<rparr>, concat (map (line_fis parse buf) lines))))"

text \<open>Feeding a sequence of chunks, one read after the other.\<close>

fun feed_chunks ::
  "(reassembler \<Rightarrow> byte list \<Rightarrow> reassembler \<times> jsval list) \<Rightarrow> reassembler \<Rightarrow> byte list list
     \<Rightarrow> reassembler \<times> jsval list" where
  "feed_chunks feed r [] = (r, [])"
| "feed_chunks feed r (c # cs) =
     (case feed r c of
        (r1, ws1) \<Rightarrow> (case feed_chunks feed r1 cs of (r2, ws2) \<Rightarrow> (r2, ws1 @ ws2)))"

subsection \<open>Notions the statements use\<close>

text \<open>The complete lines of a text (those closed by a newline), the text after its last
  newline, and the text a decoder gives for a sequence of chunks.\<close>

definition complete_lines :: "jstring \<Rightarrow> jstring list" where
  "complete_lines s = butlast (split_nl s)"

definition residual :: "jstring \<Rightarrow> jstring" where
  "residual s = last (split_nl s)"

definition decoded :: "decoder \<Rightarrow> byte list list \<Rightarrow> jstring" where
  "decoded d cs = snd (decode d (concat cs))"

text \<open>The shape the three feed steps share; \<open>line\<close> is given the new pending buffer.\<close>

definition feed_with ::
  "(jstring \<Rightarrow> jstring \<Rightarrow> jsval list) \<Rightarrow> reassembler \<Rightarrow> byte list \<Rightarrow> reassembler \<times> jsval list" where
  "feed_with line r val =
     (case decode (decoder r) val of
        (d, chunk) \<Rightarrow>
          (\<lparr>decoder = d, buffer = residual (buffer r @ chunk)\<rparr>,
           concat (map (line (residual (buffer r @ chunk))) (complete_lines (buffer r @ chunk)))))"

section \<open>The event bridge\<close>

subsection \<open>Events, errors and the upstream\<close>

text \<open>What the handlers throw.  Each value is an \<^verbatim>\<open>Error\<close> instance, so the \<^verbatim>\<open>catch\<close> block
  reports its message:
  \<^item> \<open>Rejected m\<close>: a library call (\<^verbatim>\<open>octokit.request\<close>, \<^verbatim>\<open>fetch\<close>, \<^verbatim>\<open>reader.read\<close>) rejected
    with message \<open>m\<close>;
  \<^item> \<open>CreateThreadFailed t\<close>: \<^verbatim>\<open>Failed to create thread: ${errText}\<close>;
  \<^item> \<open>MissingThreadId\<close>: \<^verbatim>\<open>Thread creation response missing thread_id\<close>;
  \<^item> \<open>AgentError status t\<close>: \<^verbatim>\<open>LangGraph agent error: ${status} ${errText}\<close>;
  \<^item> \<open>ClosedBeforeData\<close>: \<^verbatim>\<open>LangGraph stream closed before any data was sent.\<close>
    (\<^verbatim>\<open>part_000\<close> only);
  \<^item> \<open>JsonSyntaxError\<close>: the \<^verbatim>\<open>SyntaxError\<close> of \<^verbatim>\<open>threadResponse.json()\<close>;
  \<^item> \<open>PropertyOfNull\<close>: the \<^verbatim>\<open>TypeError\<close> of reading a property of \<^verbatim>\<open>null\<close>;
  \<^item> \<open>Aborted\<close>: the \<^verbatim>\<open>AbortError\<close> of the fetch that \<^verbatim>\<open>controller.abort()\<close> cut
    (\<^verbatim>\<open>part_001\<close> only).\<close>

datatype error =
    Rejected jstring
  | CreateThreadFailed jstring
  | MissingThreadId
  | AgentError nat jstring
  | ClosedBeforeData
  | JsonSyntaxError
  | PropertyOfNull
  | Aborted

text \<open>What \<^verbatim>\<open>stream.write\<close> receives: \<^verbatim>\<open>createAckEvent()\<close>, \<^verbatim>\<open>createTextEvent(v)\<close>,
  \<^verbatim>\<open>createErrorsEvent([{type: "agent", message: error.message, code: "PROCESSING_ERROR",
  identifier: "processing_error"}])\<close> and \<^verbatim>\<open>createDoneEvent()\<close>.\<close>

datatype event = Ack | Text jsval | Errors error | Done

fun is_terminal :: "event \<Rightarrow> bool" where
  "is_terminal Done = True"
| "is_terminal (Errors e) = True"
| "is_terminal ev = False"

text \<open>A \<^verbatim>\<open>fetch\<close> response: \<^verbatim>\<open>ok\<close>, \<^verbatim>\<open>status\<close>, \<^verbatim>\<open>statusText\<close>, whether \<^verbatim>\<open>body\<close> is non-null,
  and the text of the body (\<^verbatim>\<open>await response.text()\<close>).\<close>

record response =
  ok :: bool
  status :: nat
  statusText :: jstring
  has_body :: bool
  body_text :: jstring

text \<open>\<^verbatim>\<open>await reader.read()\<close>: \<^verbatim>\<open>{ value, done }\<close>, or a rejection.\<close>

datatype read = Read "byte list option" bool | ReadFails error

text \<open>The upstream calls a request makes, in order.\<close>

datatype call = GetUser | CreateThread | RunStream jsval jstring

text \<open>What one request meets: the outcome of \<^verbatim>\<open>octokit.request("GET /user")\<close> (the login),
  the prompt, the outcome of the two fetches, the time in milliseconds the second
  fetch takes to settle, \<^verbatim>\<open>Date.now()\<close> before the read loop, and the reads of the body
  in order, each with the \<^verbatim>\<open>Date.now()\<close> of its loop iteration (only \<^verbatim>\<open>part_001\<close> reads
  the clock).  Once the script of reads is used up the stream is closed:
  \<^verbatim>\<open>read()\<close> gives \<^verbatim>\<open>{ value: undefined, done: true }\<close>.\<close>

record request =
  login :: "error + jstring"
  userPrompt :: jstring
  thread_fetch :: "error + response"
  run_fetch :: "error + response"
  settle_time :: nat
  start_time :: int
  reads :: "(read \<times> int) list"

text \<open>What a request leaves: the map \<^verbatim>\<open>userThreads\<close>, the upstream calls made and the
  events written to the sink.\<close>

record result =
  threads :: "jstring \<rightharpoonup> jsval"
  calls :: "call list"
  events :: "event list"

subsection \<open>Session directory and conversation client\<close>

text \<open>Lines 77-91 of \<^verbatim>\<open>part_001\<close> (72-86 of \<^verbatim>\<open>part_000\<close>, 77-92 of \<^verbatim>\<open>fis.ts\<close>): the thread
  creation call, from the settled fetch to \<^verbatim>\<open>threadId\<close> or the thrown error.
  \<^verbatim>\<open>threadData.thread_id || threadData.id || threadData.uuid\<close>, then \<^verbatim>\<open>if (!threadId) throw\<close>.\<close>

definition createConversation ::
  "(jstring \<Rightarrow> jsval option) \<Rightarrow> error + response \<Rightarrow> error + jsval" where
  "createConversation parse fetched =
     (case fetched of
        Inl e \<Rightarrow> Inl e
      | Inr threadResponse \<Rightarrow>
          if \<not> ok threadResponse then Inl (CreateThreadFailed (body_text threadResponse))
          else
            (case parse (body_text threadResponse) of
               None \<Rightarrow> Inl JsonSyntaxError
             | Some threadData \<Rightarrow>
                 (case get threadData (lit ''thread_id'') of
                    None \<Rightarrow> Inl PropertyOfNull
                  | Some a \<Rightarrow>
                      if truthy a then Inr a
                      else
                        (case get threadData (lit ''id'') of
                           None \<Rightarrow> Inl PropertyOfNull
                         | Some b \<Rightarrow>
                             if truthy b then Inr b
                             else
                               (case get threadData (lit ''uuid'') of
                                  None \<Rightarrow> Inl PropertyOfNull
                                | Some c \<Rightarrow> if truthy c then Inr c else Inl MissingThreadId)))))"

text \<open>Lines 75-93 of \<^verbatim>\<open>part_001\<close> (70-88 of \<^verbatim>\<open>part_000\<close>, 74-94 of \<^verbatim>\<open>fis.ts\<close>):
  \<^verbatim>\<open>let threadId = userThreads.get(userLogin); if (!threadId) { ...; userThreads.set(userLogin,
  threadId); }\<close>.  The result is the map, the calls made and \<^verbatim>\<open>threadId\<close> or the error.\<close>

definition resolve ::
  "(jstring \<Rightarrow> jsval option) \<Rightarrow> (jstring \<rightharpoonup> jsval) \<Rightarrow> jstring \<Rightarrow> error + response
     \<Rightarrow> (jstring \<rightharpoonup> jsval) \<times> call list \<times> (error + jsval)" where
  "resolve parse userThreads userLogin fetched =
     (let threadId = (case userThreads userLogin of None \<Rightarrow> JUndefined | Some h \<Rightarrow> h) in
      if \<not> truthy threadId then
        (case createConversation parse fetched of
           Inl e \<Rightarrow> (userThreads, [CreateThread], Inl e)
         | Inr created \<Rightarrow> (userThreads(userLogin \<mapsto> created), [CreateThread], Inr created))
      else (userThreads, [], Inr threadId))"

text \<open>Lines 124-132 of \<^verbatim>\<open>part_001\<close> (112-120 of \<^verbatim>\<open>part_000\<close>, 119-127 of \<^verbatim>\<open>fis.ts\<close>): the
  check of the run response.\<close>

definition check_run :: "error + response \<Rightarrow> error + unit" where
  "check_run fetched =
     (case fetched of
        Inl e \<Rightarrow> Inl e
      | Inr langGraphResponse \<Rightarrow>
          if \<not> ok langGraphResponse \<or> \<not> has_body langGraphResponse then
            Inl (AgentError (status langGraphResponse)
                   (if has_body langGraphResponse then body_text langGraphResponse
                    else statusText langGraphResponse))
          else Inr ())"

text \<open>From \<^verbatim>\<open>octokit.request\<close> to \<^verbatim>\<open>getReader()\<close>, the same in the three revisions but for
  the fetch \<open>run\<close> of the stream, which \<^verbatim>\<open>part_001\<close> cuts after 300000 ms:
  the map, the calls, and the login or the thrown error.\<close>

definition connect ::
  "(jstring \<Rightarrow> jsval option) \<Rightarrow> (jstring \<rightharpoonup> jsval) \<Rightarrow> request \<Rightarrow> error + response
     \<Rightarrow> (jstring \<rightharpoonup> jsval) \<times> call list \<times> (error + jstring)" where
  "connect parse userThreads req run =
     (case login req of
        Inl e \<Rightarrow> (userThreads, [GetUser], Inl e)
      | Inr userLogin \<Rightarrow>
          (case resolve parse userThreads userLogin (thread_fetch req) of
             (ut, cs, Inl e) \<Rightarrow> (ut, GetUser # cs, Inl e)
           | (ut, cs, Inr threadId) \<Rightarrow>
               (case check_run run of
                  Inl e \<Rightarrow> (ut, GetUser # cs @ [RunStream threadId (userPrompt req)], Inl e)
                | Inr u \<Rightarrow>
                    (ut, GetUser # cs @ [RunStream threadId (userPrompt req)], Inr userLogin))))"

text \<open>\<^verbatim>\<open>setTimeout(() => controller.abort(), 300000)\<close> with \<^verbatim>\<open>signal: controller.signal\<close>
  (\<^verbatim>\<open>part_001\<close> lines 99-122).\<close>

definition with_timeout :: "request \<Rightarrow> error + response" where
  "with_timeout req = (if settle_time req < 300000 then run_fetch req else Inl Aborted)"

subsection \<open>\<^verbatim>\<open>fis.ts\<close>\<close>

definition greeting_fis :: "jstring \<Rightarrow> jstring" where
  "greeting_fis userLogin = lit ''Hi '' @ userLogin @ lit ''! ''"

text \<open>Lines 136-192: the writes of the loop and how it ends.\<close>

fun loop_fis ::
  "(jstring \<Rightarrow> jsval option) \<Rightarrow> (read \<times> int) list \<Rightarrow> reassembler \<Rightarrow> jsval list \<times> (error + unit)" where
  "loop_fis parse [] r = ([], Inr ())"
| "loop_fis parse ((ReadFails e, now) # rs) r = ([], Inl e)"
| "loop_fis parse ((Read v streamDone, now) # rs) r =
     (case (case v of None \<Rightarrow> (r, []) | Some bytes \<Rightarrow> feed_fis parse r bytes) of
        (r', ws) \<Rightarrow>
          if streamDone then (ws, Inr ())
          else (case loop_fis parse rs r' of (ws', e) \<Rightarrow> (ws @ ws', e)))"

text \<open>Lines 63-211, the callback of \<^verbatim>\<open>stream(c, ...)\<close>.\<close>

definition handle_fis ::
  "(jstring \<Rightarrow> jsval option) \<Rightarrow> (jstring \<rightharpoonup> jsval) \<Rightarrow> request \<Rightarrow> result" where
  "handle_fis parse userThreads req =
     (case connect parse userThreads req (run_fetch req) of
        (ut, cs, Inl e) \<Rightarrow> \<lparr>threads = ut, calls = cs, events = [Ack, Errors e]\<rparr>
      | (ut, cs, Inr userLogin) \<Rightarrow>
          (case loop_fis parse (reads req) new_reassembler of
             (ws, Inl e) \<Rightarrow>
               \<lparr>threads = ut, calls = cs,
                events = [Ack, Text (JStr (greeting_fis userLogin))] @ map Text ws @ [Errors e]\<rparr>
           | (ws, Inr u) \<Rightarrow>
               \<lparr>threads = ut, calls = cs,
                events = [Ack, Text (JStr (greeting_fis userLogin))] @ map Text ws @ [Done]\<rparr>))"

subsection \<open>\<^verbatim>\<open>part_000\<close>\<close>

definition greeting_p000 :: "jstring \<Rightarrow> jstring" where
  "greeting_p000 userLogin = lit ''Hi '' @ userLogin @ lit ''!'' @ [0x0A, 0x0A]"

definition fallback_text :: jstring where
  "fallback_text =
     lit ''I received your request but couldn'' @ [0x27]
     @ lit ''t generate a proper response. Please try again.''"

record streaming =
  reasm :: reassembler
  hasValidContent :: bool

text \<open>Lines 129-176: the writes of the loop, and the state it ends with or the error
  it throws.\<close>

fun loop_p000 ::
  "(jstring \<Rightarrow> jsval option) \<Rightarrow> (read \<times> int) list \<Rightarrow> streaming \<Rightarrow> jsval list \<times> (error + streaming)" where
  "loop_p000 parse [] st = ([], Inl ClosedBeforeData)"
| "loop_p000 parse ((ReadFails e, now) # rs) st = ([], Inl e)"
| "loop_p000 parse ((Read v streamDone, now) # rs) st =
     (if v = None \<and> streamDone then ([], Inl ClosedBeforeData)
      else
        (case (case v of
                 None \<Rightarrow> (st, [])
               | Some bytes \<Rightarrow>
                   (case feed_p000 parse (reasm st) bytes of
                      (r, ws) \<Rightarrow>
                        (st\<lparr>reasm := r, hasValidContent := hasValidContent st \<or> ws \<noteq> []\<rparr>, ws))) of
           (st', ws) \<Rightarrow>
             if streamDone then (ws, Inr st')
             else (case loop_p000 parse rs st' of (ws', e) \<Rightarrow> (ws @ ws', e))))"

text \<open>Lines 61-198.\<close>

definition handle_p000 ::
  "(jstring \<Rightarrow> jsval option) \<Rightarrow> (jstring \<rightharpoonup> jsval) \<Rightarrow> request \<Rightarrow> result" where
  "handle_p000 parse userThreads req =
     (case connect parse userThreads req (run_fetch req) of
        (ut, cs, Inl e) \<Rightarrow> \<lparr>threads = ut, calls = cs, events = [Ack, Errors e]\<rparr>
      | (ut, cs, Inr userLogin) \<Rightarrow>
          (case loop_p000 parse (reads req)
                  \<lparr>reasm = new_reassembler, hasValidContent = False\<rparr> of
             (ws, Inl e) \<Rightarrow>
               \<lparr>threads = ut, calls = cs,
                events = [Ack, Text (JStr (greeting_p000 userLogin))] @ map Text ws @ [Errors e]\<rparr>
           | (ws, Inr st) \<Rightarrow>
               \<lparr>threads = ut, calls = cs,
                events = [Ack, Text (JStr (greeting_p000 userLogin))] @ map Text ws
                  @ (if \<not> hasValidContent st then [Text (JStr fallback_text)] else [])
                  @ [Done]\<rparr>))"

subsection \<open>\<^verbatim>\<open>part_001\<close>\<close>

definition greeting_p001 :: "jstring \<Rightarrow> jstring" where
  "greeting_p001 userLogin =
     lit ''Hi '' @ userLogin @ lit ''! '' @ [0xD83E, 0xDD16, 0x0A, 0x0A]
     @ lit ''Starting your request... This may take up to 3 minutes depending on the model complexity.''
     @ [0x0A, 0x0A]"

definition keep_alive_text :: jstring where
  "keep_alive_text = [0x23F3] @ lit '' Processing your request...'' @ [0x0A]"

text \<open>What the loop writes: a content fragment, or the keep-alive notice.\<close>

datatype written = Fragment jsval | KeepAlive

fun event_of :: "written \<Rightarrow> event" where
  "event_of (Fragment v) = Text v"
| "event_of KeepAlive = Text (JStr keep_alive_text)"

record streaming_p001 = streaming +
  consecutiveEmptyReads :: nat
  lastActivityTime :: int

text \<open>Lines 156-176, the read that brings no bytes (\<^verbatim>\<open>!value || value.length === 0\<close>):
  \<open>chunk_of\<close> is the chunk of a read that brings some.  The counter goes up, and after
  more than \<open>maxInactivityTime\<close> = 60000 ms without bytes the keep-alive notice is written
  and the counter and the time of last activity are reset.\<close>

fun chunk_of :: "byte list option \<Rightarrow> byte list option" where
  "chunk_of None = None"
| "chunk_of (Some []) = None"
| "chunk_of (Some (b # bs)) = Some (b # bs)"

definition empty_read :: "int \<Rightarrow> streaming_p001 \<Rightarrow> written list \<times> streaming_p001" where
  "empty_read now st =
     (if now - lastActivityTime st > 60000
      then ([KeepAlive], st\<lparr>consecutiveEmptyReads := 0, lastActivityTime := now\<rparr>)
      else ([], st\<lparr>consecutiveEmptyReads := consecutiveEmptyReads st + 1\<rparr>))"

text \<open>Lines 147-236: \<^verbatim>\<open>while (true)\<close> with its \<^verbatim>\<open>try\<close>; \<open>maxEmptyReads\<close> is 50.  Every way
  out is a \<^verbatim>\<open>break\<close>: the end of the stream, a failed read, or too many reads in a row
  without bytes.\<close>

fun loop_p001 ::
  "(jstring \<Rightarrow> jsval option) \<Rightarrow> (read \<times> int) list \<Rightarrow> streaming_p001
     \<Rightarrow> written list \<times> streaming_p001" where
  "loop_p001 parse [] st = ([], st)"
| "loop_p001 parse ((ReadFails e, now) # rs) st = ([], st)"
| "loop_p001 parse ((Read v streamDone, now) # rs) st =
     (if streamDone then ([], st)
      else
        (case chunk_of v of
           None \<Rightarrow>
             (case empty_read now st of
                (ws, st') \<Rightarrow>
                  if consecutiveEmptyReads st' \<ge> 50 then (ws, st')
                  else (case loop_p001 parse rs st' of (ws', st'') \<Rightarrow> (ws @ ws', st'')))
         | Some bytes \<Rightarrow>
             (case feed_p001 parse (reasm st) bytes of
                (r, ws) \<Rightarrow>
                  (case loop_p001 parse rs
                          (st\<lparr>reasm := r, hasValidContent := hasValidContent st \<or> ws \<noteq> [],
                              consecutiveEmptyReads := 0, lastActivityTime := now\<rparr>) of
                     (ws', st'') \<Rightarrow> (map Fragment ws @ ws', st'')))))"

text \<open>Lines 64-276.\<close>

definition handle_p001 ::
  "(jstring \<Rightarrow> jsval option) \<Rightarrow> (jstring \<rightharpoonup> jsval) \<Rightarrow> request \<Rightarrow> result" where
  "handle_p001 parse userThreads req =
     (case connect parse userThreads req (with_timeout req) of
        (ut, cs, Inl e) \<Rightarrow> \<lparr>threads = ut, calls = cs, events = [Ack, Errors e]\<rparr>
      | (ut, cs, Inr userLogin) \<Rightarrow>
          (case loop_p001 parse (reads req)
                  \<lparr>reasm = new_reassembler, hasValidContent = False,
                   consecutiveEmptyReads = 0, lastActivityTime = start_time req\<rparr> of
             (ws, st) \<Rightarrow>
               \<lparr>threads = ut, calls = cs,
                events = [Ack, Text (JStr (greeting_p001 userLogin))] @ map event_of ws
                  @ (if \<not> hasValidContent st then [Text (JStr fallback_text)] else [])
                  @ [Done]\<rparr>))"

section \<open>Notions and scenarios of the statements\<close>

text \<open>One data line carrying the assistant text \<open>Hello\<close>, a line whose content is empty
  and a keep-alive line.\<close>

definition hello_line :: string where
  \<open>hello_line = ''data: {"messages":[{"type":"ai","content":"Hello","tool_calls":[]}]}''\<close>

definition empty_content_line :: string where
  \<open>empty_content_line = ''data: {"messages":[{"type":"ai","content":"","tool_calls":[]}]}''\<close>

definition ping_line :: string where
  \<open>ping_line = ''data: ping''\<close>

text \<open>The payload each revision hands to the decoder, and the lines that are garbage: those
  without the \<^verbatim>\<open>data: \<close> prefix and those whose payload the decoder rejects.\<close>

definition payload :: "jstring \<Rightarrow> jstring" where
  "payload l = drop 6 (trim l)"

definition payload_p001 :: "jstring \<Rightarrow> jstring" where
  "payload_p001 l = trim (drop 6 (trim l))"

definition garbage :: "(jstring \<Rightarrow> jsval option) \<Rightarrow> jstring \<Rightarrow> bool" where
  "garbage parse l = (\<not> startsWith (trim l) (lit ''data: '') \<or> parse (payload l) = None)"

definition garbage_p001 :: "(jstring \<Rightarrow> jsval option) \<Rightarrow> jstring \<Rightarrow> bool" where
  "garbage_p001 parse l = (\<not> startsWith (trim l) (lit ''data: '') \<or> parse (payload_p001 l) = None)"

text \<open>How the loop of \<^verbatim>\<open>part_000\<close> ends: normally, or with the error thrown.\<close>

definition exit_of :: "error + 'a \<Rightarrow> error option" where
  "exit_of res = (case res of Inl e \<Rightarrow> Some e | Inr st \<Rightarrow> None)"

text \<open>The recognised fields, in the order of the \<^verbatim>\<open>||\<close> chain, and the value a read of a
  field gives (\<^verbatim>\<open>undefined\<close> for a missing one).\<close>

definition handle_fields :: "jstring list" where
  "handle_fields = [lit ''thread_id'', lit ''id'', lit ''uuid'']"

definition field_of :: "jsval \<Rightarrow> jstring \<Rightarrow> jsval" where
  "field_of v k = (case get v k of None \<Rightarrow> JUndefined | Some x \<Rightarrow> x)"

definition ok_response :: "jstring \<Rightarrow> response" where
  "ok_response body =
     \<lparr>ok = True, status = 200, statusText = lit ''OK'', has_body = True, body_text = body\<rparr>"

text \<open>Two requests, one after the other, through the same handler.\<close>

definition two_requests ::
  "((jstring \<rightharpoonup> jsval) \<Rightarrow> request \<Rightarrow> result) \<Rightarrow> (jstring \<rightharpoonup> jsval) \<Rightarrow> request \<Rightarrow> request
     \<Rightarrow> call list" where
  "two_requests handler userThreads req1 req2 =
     calls (handler userThreads req1) @ calls (handler (threads (handler userThreads req1)) req2)"

text \<open>Requests that meet a working upstream: the thread creation answers
  \<^verbatim>\<open>{"thread_id":"t-1"}\<close> and the run opens on a stream that closes at once.\<close>

definition working_request :: "jstring \<Rightarrow> jstring \<Rightarrow> request" where
  \<open>working_request userLogin prompt =
     \<lparr>login = Inr userLogin, userPrompt = prompt,
      thread_fetch = Inr (ok_response (lit ''{"thread_id":"t-1"}'')),
      run_fetch = Inr (ok_response []), settle_time = 1200, start_time = 0, reads = []\<rparr>\<close>

text \<open>The content fragments among the writes of the loop of \<^verbatim>\<open>part_001\<close>, and the streaming
  phase of each handler from its initial state.\<close>

fun fragments_of :: "written list \<Rightarrow> jsval list" where
  "fragments_of [] = []"
| "fragments_of (Fragment v # ws) = v # fragments_of ws"
| "fragments_of (KeepAlive # ws) = fragments_of ws"

definition stream_fis :: "(jstring \<Rightarrow> jsval option) \<Rightarrow> request \<Rightarrow> jsval list \<times> (error + unit)" where
  "stream_fis parse req = loop_fis parse (reads req) new_reassembler"

definition stream_p000 ::
  "(jstring \<Rightarrow> jsval option) \<Rightarrow> request \<Rightarrow> jsval list \<times> (error + streaming)" where
  "stream_p000 parse req =
     loop_p000 parse (reads req) \<lparr>reasm = new_reassembler, hasValidContent = False\<rparr>"

definition stream_p001 ::
  "(jstring \<Rightarrow> jsval option) \<Rightarrow> request \<Rightarrow> written list \<times> streaming_p001" where
  "stream_p001 parse req =
     loop_p001 parse (reads req)
       \<lparr>reasm = new_reassembler, hasValidContent = False,
        consecutiveEmptyReads = 0, lastActivityTime = start_time req\<rparr>"

text \<open>Whether the request reached \<^verbatim>\<open>getReader()\<close>, and with which login.\<close>

definition opened ::
  "(jstring \<rightharpoonup> jsval) \<times> call list \<times> (error + jstring) \<Rightarrow> jstring \<Rightarrow> bool" where
  "opened conn userLogin = (snd (snd conn) = Inr userLogin)"

text \<open>A stream that carries one heartbeat comment and closes.\<close>

definition heartbeat :: string where
  "heartbeat = '': heartbeat''"

definition heartbeat_request :: request where
  "heartbeat_request =
     (working_request (lit ''octocat'') (lit ''hi''))
       \<lparr>reads := [(Read (Some (ascii heartbeat @ [0x0A])) False, 5)]\<rparr>"

text \<open>A stream that carries the line of \<open>Hello\<close> and closes.\<close>

definition hello_request :: request where
  "hello_request =
     (working_request (lit ''octocat'') (lit ''hi''))
       \<lparr>reads := [(Read (Some (ascii hello_line @ [0x0A])) False, 5)]\<rparr>"

text \<open>The line of \<open>Hello\<close> with its newline, then the same line once more with no newline
  after it.\<close>

definition tail_request :: request where
  "tail_request =
     (working_request (lit ''octocat'') (lit ''hi''))
       \<lparr>reads := [(Read (Some (ascii hello_line @ [0x0A])) False, 5),
                  (Read (Some (ascii hello_line)) False, 9)]\<rparr>"

section \<open>Lemmas on decoding, splitting and feeding\<close>

lemma decode_append:
  "decode d (a @ b) =
     (case decode d a of (d1, o1) \<Rightarrow> (case decode d1 b of (d2, o2) \<Rightarrow> (d2, o1 @ o2)))"
  by (induction a arbitrary: d) (auto split: prod.splits)

lemma split_nl_not_Nil [simp]: "split_nl s \<noteq> []"
  by (induction s) (auto split: list.splits)

lemma pop_or_empty_split: "pop_or_empty (split_nl s) = (residual s, complete_lines s)"
proof -
  obtain x r where "rev (split_nl s) = x # r"
    by (cases "rev (split_nl s)") auto
  then have "split_nl s = rev r @ [x]"
    by (metis rev.simps(2) rev_rev_ident)
  then show ?thesis
    by (simp add: pop_or_empty_def residual_def complete_lines_def)
qed

lemma split_nl_append:
  "split_nl (a @ b) = butlast (split_nl a) @ split_nl (last (split_nl a) @ b)"
proof (induction a)
  case Nil
  then show ?case by simp
next
  case (Cons c cs)
  obtain l ls where s: "split_nl cs = l # ls"
    by (cases "split_nl cs") auto
  show ?case
  proof (cases "c = 0x0A")
    case True
    with Cons s show ?thesis by simp
  next
    case False
    show ?thesis
    proof (cases ls)
      case Nil
      with Cons s False show ?thesis by simp
    next
      case (Cons m ms)
      with Cons.IH s False show ?thesis by simp
    qed
  qed
qed

lemma complete_lines_append:
  "complete_lines (a @ b) = complete_lines a @ complete_lines (residual a @ b)"
  unfolding complete_lines_def residual_def
  by (subst split_nl_append) (simp add: butlast_append)

lemma residual_append: "residual (a @ b) = residual (residual a @ b)"
  unfolding residual_def by (subst split_nl_append) simp

lemma split_nl_no_newline: "0x0A \<notin> set s \<Longrightarrow> split_nl s = [s]"
  by (induction s) auto

lemma residual_no_newline: "0x0A \<notin> set (residual s)"
  unfolding residual_def
proof (induction s)
  case Nil
  then show ?case by simp
next
  case (Cons c cs)
  obtain l ls where s: "split_nl cs = l # ls"
    by (cases "split_nl cs") auto
  with Cons show ?case by (cases ls) auto
qed

lemma feed_p000_with: "feed_p000 parse = feed_with (\<lambda>buf. line_p000 parse)"
  by (simp add: fun_eq_iff feed_p000_def feed_with_def pop_or_empty_split split: prod.splits)

lemma feed_p001_with: "feed_p001 parse = feed_with (\<lambda>buf. line_p001 parse)"
  by (simp add: fun_eq_iff feed_p001_def feed_with_def pop_or_empty_split split: prod.splits)

lemma feed_fis_with: "feed_fis parse = feed_with (line_fis parse)"
  by (simp add: fun_eq_iff feed_fis_def feed_with_def pop_or_empty_split split: prod.splits)

lemma residual_idem: "0x0A \<notin> set s \<Longrightarrow> residual s = s"
  by (simp add: residual_def split_nl_no_newline)

lemma complete_lines_no_newline: "0x0A \<notin> set s \<Longrightarrow> complete_lines s = []"
  by (simp add: complete_lines_def split_nl_no_newline)

lemma feed_chunks_with:
  assumes "0x0A \<notin> set (buffer r)"
  shows "feed_chunks (feed_with (\<lambda>buf. f)) r cs =
     (\<lparr>decoder = fst (decode (decoder r) (concat cs)),
       buffer = residual (buffer r @ decoded (decoder r) cs)\<rparr>,
      concat (map f (complete_lines (buffer r @ decoded (decoder r) cs))))"
  using assms
proof (induction cs arbitrary: r)
  case Nil
  then show ?case
    by (simp add: decoded_def residual_idem complete_lines_no_newline)
next
  case (Cons c cs)
  obtain d1 t1 where d: "decode (decoder r) c = (d1, t1)"
    by (cases "decode (decoder r) c")
  define r1 where "r1 = \<lparr>decoder = d1, buffer = residual (buffer r @ t1)\<rparr>"
  have f: "feed_with (\<lambda>buf. f) r c = (r1, concat (map f (complete_lines (buffer r @ t1))))"
    by (simp add: feed_with_def d r1_def)
  have nl: "0x0A \<notin> set (buffer r1)"
    by (simp add: r1_def residual_no_newline)
  obtain d2 t2 where d2: "decode d1 (concat cs) = (d2, t2)"
    by (cases "decode d1 (concat cs)")
  have all: "decode (decoder r) (concat (c # cs)) = (d2, t1 @ t2)"
    by (simp add: decode_append d d2)
  have t2: "decoded (decoder r1) cs = t2"
    by (simp add: decoded_def r1_def d2)
  have "complete_lines (buffer r @ t1 @ t2)
      = complete_lines (buffer r @ t1) @ complete_lines (residual (buffer r @ t1) @ t2)"
    using complete_lines_append [of "buffer r @ t1" t2] by simp
  moreover have "residual (buffer r @ t1 @ t2) = residual (residual (buffer r @ t1) @ t2)"
    using residual_append [of "buffer r @ t1" t2] by simp
  ultimately show ?case
    using Cons.IH [OF nl] f all t2
    by (simp add: decoded_def r1_def d2)
qed

lemma feed_with_one:
  "feed_with line r v =
     (\<lparr>decoder = fst (decode (decoder r) v), buffer = residual (buffer r @ decoded (decoder r) [v])\<rparr>,
      concat (map (line (residual (buffer r @ decoded (decoder r) [v])))
        (complete_lines (buffer r @ decoded (decoder r) [v]))))"
  by (simp add: feed_with_def decoded_def split: prod.splits)

lemma new_reassembler_simps [simp]:
  "buffer new_reassembler = []" "decoder new_reassembler = new_decoder"
  by (simp_all add: new_reassembler_def)

lemma feed_chunks_p001:
  "snd (feed_chunks (feed_p001 parse) new_reassembler cs) =
     concat (map (line_p001 parse) (complete_lines (decoded new_decoder cs)))"
  by (simp add: feed_p001_with feed_chunks_with)

lemma feed_chunks_p000:
  "snd (feed_chunks (feed_p000 parse) new_reassembler cs) =
     concat (map (line_p000 parse) (complete_lines (decoded new_decoder cs)))"
  by (simp add: feed_p000_with feed_chunks_with)

lemma event_not_data:
  "startsWith x (lit ''event: values'') \<Longrightarrow> \<not> startsWith x (lit ''data: '')"
  by (cases x) (auto simp: startsWith_def lit_def)

lemma line_fis_guard:
  "line_fis parse buf l = (if length buf < 4096 then line_fis parse [] l else [])"
  by (auto simp: line_fis_def Let_def event_not_data)

lemma split_nl_prefix:
  "0x0A \<notin> set t \<Longrightarrow> split_nl (t @ b) = (t @ hd (split_nl b)) # tl (split_nl b)"
  by (induction t) (auto split: list.splits)

lemma residual_prefix_segment:
  "residual a @ hd (split_nl b) \<in> set (split_nl (a @ b))"
proof -
  have "split_nl (a @ b) = butlast (split_nl a) @ split_nl (residual a @ b)"
    unfolding residual_def by (rule split_nl_append)
  also have "split_nl (residual a @ b) = (residual a @ hd (split_nl b)) # tl (split_nl b)"
    by (rule split_nl_prefix [OF residual_no_newline])
  finally show ?thesis by simp
qed

lemma segments_suffix:
  "set (split_nl (residual a @ b)) \<subseteq> set (split_nl (a @ b))"
proof -
  have "split_nl (a @ b) = butlast (split_nl a) @ split_nl (residual a @ b)"
    unfolding residual_def by (rule split_nl_append)
  then show ?thesis by simp
qed

lemma residual_short:
  assumes "\<forall>l \<in> set (split_nl (a @ b)). length l < n"
  shows "length (residual a) < n"
proof -
  from assms residual_prefix_segment [of a b]
  have "length (residual a @ hd (split_nl b)) < n" by blast
  then show ?thesis by simp
qed

lemma feed_with_state:
  "fst (feed_with g r v) = fst (feed_with g' r v)"
  by (simp add: feed_with_def split: prod.splits)

lemma feed_chunks_guarded:
  assumes "\<forall>l \<in> set (split_nl (buffer r @ decoded (decoder r) cs)). length l < n"
  shows "feed_chunks (feed_with (\<lambda>buf l. if length buf < n then f l else [])) r cs =
         feed_chunks (feed_with (\<lambda>buf. f)) r cs"
  using assms
proof (induction cs arbitrary: r)
  case Nil
  then show ?case by simp
next
  case (Cons c cs)
  obtain d1 t1 where d: "decode (decoder r) c = (d1, t1)"
    by (cases "decode (decoder r) c")
  obtain d2 t2 where d2: "decode d1 (concat cs) = (d2, t2)"
    by (cases "decode d1 (concat cs)")
  have all: "decoded (decoder r) (c # cs) = t1 @ t2"
    by (simp add: decoded_def decode_append d d2)
  define r1 where "r1 = \<lparr>decoder = d1, buffer = residual (buffer r @ t1)\<rparr>"
  from Cons.prems all have H: "\<forall>l \<in> set (split_nl ((buffer r @ t1) @ t2)). length l < n"
    by simp
  have short: "length (residual (buffer r @ t1)) < n"
    by (rule residual_short [OF H])
  have step: "feed_with (\<lambda>buf l. if length buf < n then f l else []) r c = feed_with (\<lambda>buf. f) r c"
    using short by (simp add: feed_with_def d)
  have st: "feed_with (\<lambda>buf. f) r c = (r1, concat (map f (complete_lines (buffer r @ t1))))"
    by (simp add: feed_with_def d r1_def)
  have "\<forall>l \<in> set (split_nl (buffer r1 @ decoded (decoder r1) cs)). length l < n"
    using H segments_suffix [of "buffer r @ t1" t2]
    by (auto simp: r1_def decoded_def d2)
  from Cons.IH [OF this] step st show ?case by simp
qed

lemma feed_chunks_state:
  "fst (feed_chunks (feed_with g) r cs) = fst (feed_chunks (feed_with g') r cs)"
proof (induction cs arbitrary: r)
  case Nil
  then show ?case by simp
next
  case (Cons c cs)
  obtain r1 w1 where a: "feed_with g r c = (r1, w1)" by (cases "feed_with g r c")
  obtain r1' w1' where b: "feed_with g' r c = (r1', w1')" by (cases "feed_with g' r c")
  from a b feed_with_state [of g r c g'] have r: "r1' = r1" by simp
  from Cons.IH [of r1] show ?case
    by (cases "feed_chunks (feed_with g) r1 cs"; cases "feed_chunks (feed_with g') r1 cs")
       (simp add: a b r)
qed

lemma concat_map_Nil: "concat (map (\<lambda>l. []) xs) = []"
  by (induction xs) auto

lemma feed_chunks_subseq:
  "subseq (snd (feed_chunks (feed_with (\<lambda>buf l. if length buf < n then f l else [])) r cs))
          (snd (feed_chunks (feed_with (\<lambda>buf. f)) r cs))"
proof (induction cs arbitrary: r)
  case Nil
  then show ?case by simp
next
  case (Cons c cs)
  let ?g = "\<lambda>buf l. if length buf < n then f l else []"
  obtain r1 w1 where a: "feed_with ?g r c = (r1, w1)" by (cases "feed_with ?g r c")
  obtain r1' w1' where b: "feed_with (\<lambda>buf. f) r c = (r1', w1')" by (cases "feed_with (\<lambda>buf. f) r c")
  from a b feed_with_state [of ?g r c "\<lambda>buf. f"] have r: "r1' = r1" by simp
  have w: "subseq w1 w1'"
  proof (cases "length (buffer r1) < n")
    case True
    with a b show ?thesis by (auto simp: feed_with_def split: prod.splits)
  next
    case False
    with a b show ?thesis by (auto simp: feed_with_def concat_map_Nil split: prod.splits)
  qed
  from Cons.IH [of r1] w show ?case
    by (cases "feed_chunks (feed_with ?g) r1 cs"; cases "feed_chunks (feed_with (\<lambda>buf. f)) r1 cs")
       (simp add: a b r list_emb_append_mono)
qed

lemma feed_fis_guarded: "feed_fis parse = feed_with (\<lambda>buf l. if length buf < 4096 then line_fis parse [] l else [])"
proof -
  have "line_fis parse = (\<lambda>buf l. if length buf < 4096 then line_fis parse [] l else [])"
    by (intro ext) (rule line_fis_guard)
  then show ?thesis by (simp only: feed_fis_with)
qed

lemma feed_chunks_fis:
  assumes "\<forall>l \<in> set (split_nl (decoded new_decoder cs)). length l < 4096"
  shows "snd (feed_chunks (feed_fis parse) new_reassembler cs) =
     concat (map (line_fis parse []) (complete_lines (decoded new_decoder cs)))"
  using assms by (simp add: feed_fis_guarded feed_chunks_guarded feed_chunks_with)

lemma feed_chunks_fis_subseq:
  "subseq (snd (feed_chunks (feed_fis parse) new_reassembler cs))
     (concat (map (line_fis parse []) (complete_lines (decoded new_decoder cs))))"
  using feed_chunks_subseq [of 4096 "line_fis parse []" new_reassembler cs]
  by (simp add: feed_fis_guarded feed_chunks_with)

lemma ucast_of_char: "(ucast (of_char c :: 8 word) :: 16 word) = of_char c"
proof -
  have "(of_char c :: 8 word) = of_nat (of_char c)"
    by (simp add: of_nat_of_char)
  then have "(ucast (of_char c :: 8 word) :: 16 word) = of_nat (take_bit 8 (of_char c :: nat))"
    by (simp add: unsigned_of_nat)
  also have "take_bit 8 (of_char c :: nat) = of_char c"
    using nat_of_char_less_256 [of c] by (simp add: take_bit_nat_eq_self)
  finally show ?thesis by (simp add: of_nat_of_char)
qed

lemma map_ucast_ascii: "map ucast (ascii s) = lit s"
  by (simp add: ascii_def lit_def ucast_of_char)

lemma decode_byte_ascii:
  assumes "bytes_needed d = 0" "w < 0x80"
  shows "decode_byte d w = (d\<lparr>bom_seen := True\<rparr>, [ucast w])"
proof -
  from assms(2) have "unat w < 128"
    by (simp add: word_less_nat_alt)
  moreover have "(of_nat (unat w) :: 16 word) = ucast w"
    by simp
  ultimately show ?thesis
    using assms(1) by (simp add: decode_byte_def lead_byte_def emit_def utf16_def Let_def)
qed

lemma decode_ascii:
  assumes "bytes_needed d = 0" "\<forall>w \<in> set ws. w < 0x80"
  shows "decode d ws = (if ws = [] then d else d\<lparr>bom_seen := True\<rparr>, map ucast ws)"
  using assms
proof (induction ws arbitrary: d)
  case Nil
  then show ?case by simp
next
  case (Cons w ws)
  then have "decode (d\<lparr>bom_seen := True\<rparr>) ws =
      (if ws = [] then d\<lparr>bom_seen := True\<rparr> else d\<lparr>bom_seen := True\<rparr>\<lparr>bom_seen := True\<rparr>, map ucast ws)"
    by simp
  with Cons.prems show ?case
    by (simp add: decode_byte_ascii)
qed

lemma split_nl_line: "0x0A \<notin> set a \<Longrightarrow> split_nl (a @ 0x0A # b) = a # split_nl b"
  by (induction a) auto

lemma feed_chunks_single: "feed_chunks feed r [c] = feed r c"
  by (cases "feed r c") simp

lemma decoded_single: "decoded d [concat cs] = decoded d cs"
  by (simp add: decoded_def)

section \<open>Chunk boundaries\<close>

text \<open>Claim C1, as the code has it.  In \<^verbatim>\<open>part_000\<close> and \<^verbatim>\<open>part_001\<close>, for every decoder of
  lines, every byte stream and every way of cutting it into chunks, feeding the chunks
  one after the other writes the same values, in the same order, as feeding the whole
  stream as one chunk.  In \<^verbatim>\<open>fis.ts\<close> the same holds when every newline-delimited segment of
  the decoded stream is shorter than 4096 code units: its second branch reads a line only
  while the pending buffer is shorter than that.\<close>

theorem chunk_boundary_invariance:
  "snd (feed_chunks (feed_p000 parse) new_reassembler cs)
     = snd (feed_p000 parse new_reassembler (concat cs))
   \<and> snd (feed_chunks (feed_p001 parse) new_reassembler cs)
     = snd (feed_p001 parse new_reassembler (concat cs))
   \<and> ((\<forall>l \<in> set (split_nl (decoded new_decoder cs)). length l < 4096) \<longrightarrow>
        snd (feed_chunks (feed_fis parse) new_reassembler cs)
          = snd (feed_fis parse new_reassembler (concat cs)))"
proof (intro conjI impI)
  show "snd (feed_chunks (feed_p000 parse) new_reassembler cs)
     = snd (feed_p000 parse new_reassembler (concat cs))"
    using feed_chunks_p000 [of parse cs] feed_chunks_p000 [of parse "[concat cs]"]
    by (simp only: feed_chunks_single decoded_single)
  show "snd (feed_chunks (feed_p001 parse) new_reassembler cs)
     = snd (feed_p001 parse new_reassembler (concat cs))"
    using feed_chunks_p001 [of parse cs] feed_chunks_p001 [of parse "[concat cs]"]
    by (simp only: feed_chunks_single decoded_single)
next
  assume short: "\<forall>l \<in> set (split_nl (decoded new_decoder cs)). length l < 4096"
  then have "\<forall>l \<in> set (split_nl (decoded new_decoder [concat cs])). length l < 4096"
    by (simp only: decoded_single)
  from feed_chunks_fis [OF short, of parse] feed_chunks_fis [OF this, of parse]
  show "snd (feed_chunks (feed_fis parse) new_reassembler cs)
          = snd (feed_fis parse new_reassembler (concat cs))"
    by (simp only: feed_chunks_single decoded_single)
qed

lemma hello_line_ascii: "\<forall>w \<in> set (ascii hello_line). w < 0x80"
  by (simp add: ascii_def hello_line_def)

lemma hello_line_no_newline: "0x0A \<notin> set (lit hello_line)"
  by (simp add: lit_def hello_line_def)

lemma hello_line_length: "length (lit hello_line) = 68"
  by (simp add: lit_def hello_line_def)

lemma hello_line_fis: "line_fis json_parse [] (lit hello_line) = [JStr (lit ''Hello'')]"
  by (simp add: hello_line_def line_fis_def trim_def is_ws_def lit_def startsWith_def
      try_parse_def json_parse_def is_digit_def escape_def extract_fis_def ai_entry_fis_def
      no_tool_calls_def is_zero_def)

lemma decode_ascii_new:
  "\<forall>w \<in> set ws. w < 0x80 \<Longrightarrow> snd (decode new_decoder ws) = map ucast ws"
  by (simp add: decode_ascii new_decoder_def)

text \<open>The line cut in two chunks after its 20th byte.\<close>

theorem chunk_boundary_invariance_witness:
  "list_all (\<lambda>l. length l < 4096)
     (split_nl (decoded new_decoder [take 20 (ascii hello_line), drop 20 (ascii hello_line) @ [0x0A]]))
   \<and> snd (feed_chunks (feed_fis json_parse) new_reassembler
         [take 20 (ascii hello_line), drop 20 (ascii hello_line) @ [0x0A]])
       = [JStr (lit ''Hello'')]
   \<and> snd (feed_fis json_parse new_reassembler
         (concat [take 20 (ascii hello_line), drop 20 (ascii hello_line) @ [0x0A]]))
       = [JStr (lit ''Hello'')]"
proof -
  let ?cs = "[take 20 (ascii hello_line), drop 20 (ascii hello_line) @ [0x0A]]"
  have cat: "concat ?cs = ascii hello_line @ [0x0A]" by simp
  have "\<forall>w \<in> set (ascii hello_line @ [0x0A]). w < 0x80"
    using hello_line_ascii by simp
  then have "snd (decode new_decoder (ascii hello_line @ [0x0A])) = map ucast (ascii hello_line @ [0x0A])"
    by (rule decode_ascii_new)
  then have dec: "decoded new_decoder ?cs = lit hello_line @ [0x0A]"
    unfolding decoded_def cat by (simp add: map_ucast_ascii)
  have split: "split_nl (lit hello_line @ [0x0A]) = [lit hello_line, []]"
    using split_nl_line [OF hello_line_no_newline, of "[]"] by simp
  have short: "\<forall>l \<in> set (split_nl (decoded new_decoder ?cs)). length l < 4096"
    by (simp add: dec split hello_line_length)
  have whole: "snd (feed_chunks (feed_fis json_parse) new_reassembler ?cs) = [JStr (lit ''Hello'')]"
    using feed_chunks_fis [OF short, of json_parse]
    by (simp add: dec complete_lines_def split hello_line_fis)
  from chunk_boundary_invariance [of json_parse ?cs] short whole
  show ?thesis
    by (simp add: list_all_iff)
qed

text \<open>Claim C1 as it is stated fails in \<^verbatim>\<open>fis.ts\<close>: the line and its newline as one chunk,
  then 4096 bytes \<open>x\<close> with no newline as a second chunk, give \<open>Hello\<close>; the same
  bytes as one chunk give nothing, since the pending buffer then holds 4096 code units
  when the line is looked at.\<close>

theorem chunk_boundary_counterexample_fis:
  "snd (feed_chunks (feed_fis json_parse) new_reassembler
          [ascii hello_line @ [0x0A], replicate 4096 0x78]) = [JStr (lit ''Hello'')]
   \<and> snd (feed_fis json_parse new_reassembler
          (concat [ascii hello_line @ [0x0A], replicate 4096 0x78])) = []"
proof -
  let ?xs = "replicate 4096 (0x78 :: byte)"
  let ?ys = "replicate 4096 (0x78 :: 16 word)"
  let ?d = "new_decoder\<lparr>bom_seen := True\<rparr>"
  have a1: "\<forall>w \<in> set (ascii hello_line @ [0x0A]). w < 0x80"
    using hello_line_ascii by simp
  have d1: "decode new_decoder (ascii hello_line @ [0x0A]) = (?d, lit hello_line @ [0x0A])"
    using decode_ascii [OF _ a1, of new_decoder]
    by (simp add: new_decoder_def map_ucast_ascii)
  have d2: "decode ?d ?xs = (?d, ?ys)"
    using decode_ascii [of ?d ?xs] by (simp add: new_decoder_def)
  have d12: "decode new_decoder (ascii hello_line @ 0x0A # ?xs) = (?d, lit hello_line @ 0x0A # ?ys)"
    using decode_append [of new_decoder "ascii hello_line @ [0x0A]" ?xs]
    by (simp add: d1 d2)
  have nl: "0x0A \<notin> set ?ys" by simp
  have s1: "split_nl (lit hello_line @ [0x0A]) = [lit hello_line, []]"
    using split_nl_line [OF hello_line_no_newline, of "[]"] by simp
  have s2: "split_nl ?ys = [?ys]"
    by (rule split_nl_no_newline [OF nl])
  have s12: "split_nl (lit hello_line @ 0x0A # ?ys) = [lit hello_line, ?ys]"
    using split_nl_line [OF hello_line_no_newline, of ?ys] s2 by simp
  have f1: "feed_fis json_parse new_reassembler (ascii hello_line @ [0x0A])
      = (\<lparr>decoder = ?d, buffer = []\<rparr>, [JStr (lit ''Hello'')])"
    by (simp add: feed_fis_def d1 s1 pop_or_empty_def hello_line_fis)
  have f2: "feed_fis json_parse \<lparr>decoder = ?d, buffer = []\<rparr> ?xs
      = (\<lparr>decoder = ?d, buffer = ?ys\<rparr>, [])"
    by (simp add: feed_fis_def d2 s2 pop_or_empty_def)
  have f12: "feed_fis json_parse new_reassembler (ascii hello_line @ 0x0A # ?xs)
      = (\<lparr>decoder = ?d, buffer = ?ys\<rparr>, [])"
    using line_fis_guard [of json_parse ?ys "lit hello_line"]
    by (simp add: feed_fis_def d12 s12 pop_or_empty_def)
  from f1 f2 f12 show ?thesis by simp
qed

section \<open>The concrete scenario\<close>

lemma hello_line_p000: "line_p000 json_parse (lit hello_line) = [JStr (lit ''Hello'')]"
  by (simp add: hello_line_def line_p000_def trim_def is_ws_def lit_def startsWith_def
      try_parse_def json_parse_def is_digit_def escape_def extract_p000_def ai_entry_def
      no_tool_calls_def is_zero_def)

lemma hello_line_p001: "line_p001 json_parse (lit hello_line) = [JStr (lit ''Hello'')]"
  by (simp add: hello_line_def line_p001_def trim_def is_ws_def lit_def startsWith_def
      try_parse_def json_parse_def is_digit_def escape_def extract_p001_def extract_p000_def
      ai_entry_def no_tool_calls_def is_zero_def)

lemma empty_content_line_p000: "line_p000 json_parse (lit empty_content_line) = []"
  by (simp add: empty_content_line_def line_p000_def trim_def is_ws_def lit_def startsWith_def
      try_parse_def json_parse_def is_digit_def escape_def extract_p000_def ai_entry_def
      no_tool_calls_def is_zero_def)

lemma empty_content_line_p001: "line_p001 json_parse (lit empty_content_line) = []"
  by (simp add: empty_content_line_def line_p001_def trim_def is_ws_def lit_def startsWith_def
      try_parse_def json_parse_def is_digit_def escape_def extract_p001_def extract_p000_def
      ai_entry_def no_tool_calls_def is_zero_def)

lemma empty_content_line_fis: "line_fis json_parse [] (lit empty_content_line) = []"
  by (simp add: empty_content_line_def line_fis_def trim_def is_ws_def lit_def startsWith_def
      try_parse_def json_parse_def is_digit_def escape_def extract_fis_def ai_entry_fis_def
      no_tool_calls_def is_zero_def)

lemma ping_line_p000: "line_p000 parse (lit ping_line) = []"
  by (simp add: ping_line_def line_p000_def trim_def is_ws_def lit_def startsWith_def)

lemma ping_line_p001: "line_p001 parse (lit ping_line) = []"
  by (simp add: ping_line_def line_p001_def trim_def is_ws_def lit_def startsWith_def)

lemma ping_line_fis: "line_fis parse buf (lit ping_line) = []"
  by (simp add: ping_line_def line_fis_def trim_def is_ws_def lit_def startsWith_def)

lemma scenario_ascii:
  "\<forall>w \<in> set (ascii empty_content_line). w < 0x80" "\<forall>w \<in> set (ascii ping_line). w < 0x80"
  by (simp_all add: ascii_def empty_content_line_def ping_line_def)

lemma scenario_no_newline:
  "0x0A \<notin> set (lit empty_content_line)" "0x0A \<notin> set (lit ping_line)"
  by (simp_all add: lit_def empty_content_line_def ping_line_def)

lemma scenario_lengths:
  "length (lit empty_content_line) = 63" "length (lit ping_line) = 10"
  by (simp_all add: lit_def empty_content_line_def ping_line_def)

lemma scenario_decoded:
  "decoded new_decoder
     [ascii hello_line @ [0x0A], ascii empty_content_line @ [0x0A], ascii ping_line @ [0x0A]]
   = lit hello_line @ 0x0A # lit empty_content_line @ 0x0A # lit ping_line @ [0x0A]"
proof -
  let ?bytes = "ascii hello_line @ 0x0A # ascii empty_content_line @ 0x0A # ascii ping_line @ [0x0A]"
  have "\<forall>w \<in> set ?bytes. w < 0x80"
    using hello_line_ascii scenario_ascii by auto
  then have "snd (decode new_decoder ?bytes) = map ucast ?bytes"
    by (rule decode_ascii_new)
  then show ?thesis
    by (simp add: decoded_def map_ucast_ascii)
qed

lemma scenario_split:
  "split_nl (lit hello_line @ 0x0A # lit empty_content_line @ 0x0A # lit ping_line @ [0x0A])
   = [lit hello_line, lit empty_content_line, lit ping_line, []]"
  using split_nl_line [OF hello_line_no_newline,
      of "lit empty_content_line @ 0x0A # lit ping_line @ [0x0A]"]
    split_nl_line [OF scenario_no_newline(1), of "lit ping_line @ [0x0A]"]
    split_nl_line [OF scenario_no_newline(2), of "[]"]
  by simp

text \<open>Claim C6.  The three chunks of the scenario, fed in order to a fresh
  reassembler with the JSON decoder, give exactly the one value \<open>Hello\<close>, in each of
  the three revisions.\<close>

theorem concrete_scenario:
  "snd (feed_chunks (feed_p001 json_parse) new_reassembler
          [ascii hello_line @ [0x0A], ascii empty_content_line @ [0x0A], ascii ping_line @ [0x0A]])
     = [JStr (lit ''Hello'')]
   \<and> snd (feed_chunks (feed_p000 json_parse) new_reassembler
          [ascii hello_line @ [0x0A], ascii empty_content_line @ [0x0A], ascii ping_line @ [0x0A]])
     = [JStr (lit ''Hello'')]
   \<and> snd (feed_chunks (feed_fis json_parse) new_reassembler
          [ascii hello_line @ [0x0A], ascii empty_content_line @ [0x0A], ascii ping_line @ [0x0A]])
     = [JStr (lit ''Hello'')]"
proof -
  let ?cs = "[ascii hello_line @ [0x0A], ascii empty_content_line @ [0x0A], ascii ping_line @ [0x0A]]"
  have lines: "complete_lines (decoded new_decoder ?cs)
      = [lit hello_line, lit empty_content_line, lit ping_line]"
    by (simp add: scenario_decoded complete_lines_def scenario_split)
  have short: "\<forall>l \<in> set (split_nl (decoded new_decoder ?cs)). length l < 4096"
    by (simp add: scenario_decoded scenario_split hello_line_length scenario_lengths)
  have "snd (feed_chunks (feed_p001 json_parse) new_reassembler ?cs) = [JStr (lit ''Hello'')]"
    by (simp only: feed_chunks_p001 lines)
       (simp add: hello_line_p001 empty_content_line_p001 ping_line_p001)
  moreover have "snd (feed_chunks (feed_p000 json_parse) new_reassembler ?cs) = [JStr (lit ''Hello'')]"
    by (simp only: feed_chunks_p000 lines)
       (simp add: hello_line_p000 empty_content_line_p000 ping_line_p000)
  moreover have "snd (feed_chunks (feed_fis json_parse) new_reassembler ?cs) = [JStr (lit ''Hello'')]"
    by (simp only: feed_chunks_fis [OF short] lines)
       (simp add: hello_line_fis empty_content_line_fis ping_line_fis)
  ultimately show ?thesis by blast
qed

section \<open>Tool calls\<close>

lemma not_is_zero_Suc: "\<not> is_zero (of_nat (Suc k))"
proof -
  have "(1 :: rat) / 2 ^ 1075 < 1" by simp
  moreover have "(1 :: rat) \<le> \<bar>of_nat (Suc k)\<bar>" by simp
  ultimately show ?thesis unfolding is_zero_def by linarith
qed

lemma no_tool_calls_nonempty:
  "get msg (lit ''tool_calls'') = Some (JArr (t # ts)) \<Longrightarrow> no_tool_calls msg = Some False"
  using not_is_zero_Suc [of "length ts"] by (simp add: no_tool_calls_def)

lemma get_some_any:
  "get v k = Some x \<Longrightarrow> \<exists>y. get v k' = Some y"
  by (cases v) auto

lemma ai_entry_tool_calls:
  assumes "get msg (lit ''tool_calls'') = Some (JArr (t # ts))"
  shows "ai_entry msg = Some []"
proof -
  obtain ty where ty: "get msg (lit ''type'') = Some ty"
    using get_some_any [OF assms] by blast
  obtain c where c: "get msg (lit ''content'') = Some c"
    using get_some_any [OF assms] by blast
  show ?thesis
    by (simp add: ai_entry_def ty c no_tool_calls_nonempty [OF assms])
qed

lemma ai_entry_fis_tool_calls:
  assumes "get msg (lit ''tool_calls'') = Some (JArr (t # ts))"
  shows "ai_entry_fis msg = Some []"
proof -
  obtain ty where ty: "get msg (lit ''type'') = Some ty"
    using get_some_any [OF assms] by blast
  obtain c where c: "get msg (lit ''content'') = Some c"
    using get_some_any [OF assms] by blast
  show ?thesis
    by (simp add: ai_entry_fis_def ty c no_tool_calls_nonempty [OF assms])
qed

lemma for_of_skip:
  "body m = Some [] \<Longrightarrow> for_of body (before @ m # after) = for_of body (before @ after)"
  by (induction before) (auto split: option.splits prod.splits)

text \<open>Claim C4.  An entry whose \<^verbatim>\<open>tool_calls\<close> is a non-empty array writes nothing, whatever
  its \<^verbatim>\<open>type\<close> and \<^verbatim>\<open>content\<close>, in the three revisions; and what a decoded record
  \<open>eventObj\<close> writes is what the record without that entry (\<open>eventObj'\<close>) writes.\<close>

theorem tool_call_suppression:
  assumes "get msg (lit ''tool_calls'') = Some (JArr (t # ts))"
    and "get eventObj (lit ''messages'') = Some (JArr (before @ msg # after))"
    and "get eventObj' (lit ''messages'') = Some (JArr (before @ after))"
    and "get eventObj' (lit ''content'') = get eventObj (lit ''content'')"
  shows "ai_entry msg = Some [] \<and> ai_entry_fis msg = Some []
    \<and> extract_p000 eventObj = extract_p000 eventObj'
    \<and> extract_p001 eventObj = extract_p001 eventObj'
    \<and> extract_fis eventObj = extract_fis eventObj'"
proof -
  have a: "ai_entry msg = Some []" by (rule ai_entry_tool_calls [OF assms(1)])
  have b: "ai_entry_fis msg = Some []" by (rule ai_entry_fis_tool_calls [OF assms(1)])
  have p000: "extract_p000 eventObj = extract_p000 eventObj'"
    by (simp add: extract_p000_def assms(2,3) for_of_skip [of ai_entry msg, OF a])
  have p001: "extract_p001 eventObj = extract_p001 eventObj'"
    unfolding extract_p001_def p000 assms(4) by (rule refl)
  have fis: "extract_fis eventObj = extract_fis eventObj'"
    by (simp add: extract_fis_def assms(2,3) for_of_skip [of ai_entry_fis msg, OF b])
  from a b p000 p001 fis show ?thesis by simp
qed

text \<open>An answer entry followed by a tool-call entry that also carries text.\<close>

theorem tool_call_suppression_witness:
  "ai_entry (JObj [(lit ''tool_calls'', JArr [JObj [(lit ''name'', JStr (lit ''search''))]]),
                   (lit ''content'', JStr (lit ''Calling a tool'')), (lit ''type'', JStr (lit ''ai''))])
     = Some []
   \<and> extract_p001 (JObj [(lit ''messages'', JArr
        [JObj [(lit ''content'', JStr (lit ''Hello'')), (lit ''type'', JStr (lit ''ai''))],
         JObj [(lit ''tool_calls'', JArr [JObj [(lit ''name'', JStr (lit ''search''))]]),
               (lit ''content'', JStr (lit ''Calling a tool'')), (lit ''type'', JStr (lit ''ai''))]])])
     = ([JStr (lit ''Hello'')], True)
   \<and> extract_fis (JObj [(lit ''messages'', JArr
        [JObj [(lit ''content'', JStr (lit ''Hello'')), (lit ''type'', JStr (lit ''ai''))],
         JObj [(lit ''tool_calls'', JArr [JObj [(lit ''name'', JStr (lit ''search''))]]),
               (lit ''content'', JStr (lit ''Calling a tool'')), (lit ''type'', JStr (lit ''ai''))]])])
     = ([JStr (lit ''Hello'')], True)"
proof -
  let ?tool = "JObj [(lit ''tool_calls'', JArr [JObj [(lit ''name'', JStr (lit ''search''))]]),
                   (lit ''content'', JStr (lit ''Calling a tool'')), (lit ''type'', JStr (lit ''ai''))]"
  let ?hello = "JObj [(lit ''content'', JStr (lit ''Hello'')), (lit ''type'', JStr (lit ''ai''))]"
  let ?ev = "JObj [(lit ''messages'', JArr [?hello, ?tool])]"
  let ?ev' = "JObj [(lit ''messages'', JArr [?hello])]"
  have h1: "get ?tool (lit ''tool_calls'') = Some (JArr (JObj [(lit ''name'', JStr (lit ''search''))] # []))"
    by simp
  have h2: "get ?ev (lit ''messages'') = Some (JArr ([?hello] @ ?tool # []))"
    by simp
  have h3: "get ?ev' (lit ''messages'') = Some (JArr ([?hello] @ []))"
    by simp
  have h4: "get ?ev' (lit ''content'') = get ?ev (lit ''content'')"
    by (simp add: lit_def)
  have e1: "extract_p001 ?ev' = ([JStr (lit ''Hello'')], True)"
    by (simp add: extract_p001_def extract_p000_def ai_entry_def no_tool_calls_def lit_def
        trim_def is_ws_def)
  have e2: "extract_fis ?ev' = ([JStr (lit ''Hello'')], True)"
    by (simp add: extract_fis_def ai_entry_fis_def no_tool_calls_def lit_def)
  from tool_call_suppression [OF h1 h2 h3 h4] e1 e2 show ?thesis by simp
qed

section \<open>Malformed lines\<close>

lemma startsWith_data_brace:
  assumes "startsWith x (lit ''data: {'')"
  shows "startsWith x (lit ''data: '')"
proof -
  have l7: "length (lit ''data: {'') = 7" and l6: "length (lit ''data: '') = 6"
    by (simp_all add: lit_def)
  from assms have t: "take 7 x = lit ''data: {''"
    unfolding startsWith_def l7 .
  have "take 6 x = take 6 (take 7 x)" by simp
  also have "\<dots> = lit ''data: ''" unfolding t by (simp add: lit_def)
  finally show ?thesis unfolding startsWith_def l6 .
qed

lemma garbage_line_p000: "garbage parse l \<Longrightarrow> line_p000 parse l = []"
  using startsWith_data_brace [of "trim l"]
  by (auto simp: garbage_def payload_def line_p000_def Let_def try_parse_def)

lemma garbage_line_fis: "garbage parse l \<Longrightarrow> line_fis parse buf l = []"
  using startsWith_data_brace [of "trim l"]
  by (auto simp: garbage_def payload_def line_fis_def Let_def try_parse_def event_not_data)

lemma garbage_line_p001: "garbage_p001 parse l \<Longrightarrow> line_p001 parse l = []"
  by (auto simp: garbage_p001_def payload_p001_def line_p001_def Let_def try_parse_def)

lemma concat_map_filter_Nil:
  "(\<And>x. \<not> P x \<Longrightarrow> f x = []) \<Longrightarrow> concat (map f (filter P xs)) = concat (map f xs)"
  by (induction xs) auto

lemma loop_fis_exit: "snd (loop_fis parse rs r) = snd (loop_fis parse' rs r')"
proof (induction rs arbitrary: r r')
  case Nil
  then show ?case by simp
next
  case (Cons x rs)
  obtain rd now where x: "x = (rd, now)" by (cases x)
  show ?case
  proof (cases rd)
    case (Read v d)
    obtain r1 w1 where a: "(case v of None \<Rightarrow> (r, []) | Some bytes \<Rightarrow> feed_fis parse r bytes) = (r1, w1)"
      by (cases "case v of None \<Rightarrow> (r, []) | Some bytes \<Rightarrow> feed_fis parse r bytes")
    obtain r2 w2 where b: "(case v of None \<Rightarrow> (r', []) | Some bytes \<Rightarrow> feed_fis parse' r' bytes) = (r2, w2)"
      by (cases "case v of None \<Rightarrow> (r', []) | Some bytes \<Rightarrow> feed_fis parse' r' bytes")
    from Cons.IH [of r1 r2] show ?thesis
      by (cases "loop_fis parse rs r1"; cases "loop_fis parse' rs r2") (simp add: x Read a b)
  next
    case (ReadFails e)
    then show ?thesis by (simp add: x)
  qed
qed

lemma loop_p000_exit:
  "exit_of (snd (loop_p000 parse rs st)) = exit_of (snd (loop_p000 parse' rs st'))"
proof (induction rs arbitrary: st st')
  case Nil
  then show ?case by simp
next
  case (Cons x rs)
  obtain rd now where x: "x = (rd, now)" by (cases x)
  show ?case
  proof (cases rd)
    case (Read v d)
    let ?step = "\<lambda>p s. (case v of None \<Rightarrow> (s, [])
        | Some bytes \<Rightarrow>
            (case feed_p000 p (reasm s) bytes of
               (r, ws) \<Rightarrow> (s\<lparr>reasm := r, hasValidContent := hasValidContent s \<or> ws \<noteq> []\<rparr>, ws)))"
    obtain s1 w1 where a: "?step parse st = (s1, w1)" by (cases "?step parse st")
    obtain s2 w2 where b: "?step parse' st' = (s2, w2)" by (cases "?step parse' st'")
    from Cons.IH [of s1 s2] show ?thesis
      by (cases "loop_p000 parse rs s1"; cases "loop_p000 parse' rs s2")
         (simp add: x Read a b exit_of_def)
  next
    case (ReadFails e)
    then show ?thesis by (simp add: x)
  qed
qed

text \<open>Claim C5, as the code has it.  A garbage line writes nothing.  In \<^verbatim>\<open>part_000\<close> and
  \<^verbatim>\<open>part_001\<close>, whatever the chunking, what a stream writes is what its lines that are not
  garbage write, in stream order; in \<^verbatim>\<open>fis.ts\<close> the same holds when every segment of the
  stream is shorter than 4096 code units.  How the read loop ends does not depend on
  what the decoder answers (the loop of \<^verbatim>\<open>part_001\<close> cannot throw at all).\<close>

theorem malformed_line_tolerance:
  "(garbage parse l \<longrightarrow> line_p000 parse l = [] \<and> line_fis parse buf l = [])
   \<and> (garbage_p001 parse l \<longrightarrow> line_p001 parse l = [])
   \<and> snd (feed_chunks (feed_p000 parse) new_reassembler cs)
       = concat (map (line_p000 parse)
           (filter (\<lambda>l. \<not> garbage parse l) (complete_lines (decoded new_decoder cs))))
   \<and> snd (feed_chunks (feed_p001 parse) new_reassembler cs)
       = concat (map (line_p001 parse)
           (filter (\<lambda>l. \<not> garbage_p001 parse l) (complete_lines (decoded new_decoder cs))))
   \<and> ((\<forall>l \<in> set (split_nl (decoded new_decoder cs)). length l < 4096) \<longrightarrow>
        snd (feed_chunks (feed_fis parse) new_reassembler cs)
          = concat (map (line_fis parse [])
              (filter (\<lambda>l. \<not> garbage parse l) (complete_lines (decoded new_decoder cs)))))
   \<and> snd (loop_fis parse rs r) = snd (loop_fis parse' rs r')
   \<and> exit_of (snd (loop_p000 parse rs st)) = exit_of (snd (loop_p000 parse' rs st'))"
proof -
  have p000: "concat (map (line_p000 parse) (filter (\<lambda>l. \<not> garbage parse l) xs))
      = concat (map (line_p000 parse) xs)" for xs
    by (rule concat_map_filter_Nil) (simp add: garbage_line_p000)
  have p001: "concat (map (line_p001 parse) (filter (\<lambda>l. \<not> garbage_p001 parse l) xs))
      = concat (map (line_p001 parse) xs)" for xs
    by (rule concat_map_filter_Nil) (simp add: garbage_line_p001)
  have fis: "concat (map (line_fis parse []) (filter (\<lambda>l. \<not> garbage parse l) xs))
      = concat (map (line_fis parse []) xs)" for xs
    by (rule concat_map_filter_Nil) (simp add: garbage_line_fis)
  show ?thesis
    using loop_fis_exit [of parse rs r parse' r'] loop_p000_exit [of parse rs st parse' st']
    by (simp add: garbage_line_p000 garbage_line_fis garbage_line_p001
        feed_chunks_p000 feed_chunks_p001 feed_chunks_fis p000 p001 fis)
qed

lemma trim_replicate_x: "trim (replicate n 0x78) = replicate n 0x78"
  by (simp add: trim_def is_ws_def)

lemma startsWith_replicate: "c \<noteq> x \<Longrightarrow> \<not> startsWith (replicate n x) (c # cs)"
  by (cases n) (simp_all add: startsWith_def)

lemma garbage_replicate_x: "garbage parse (replicate n 0x78)"
  by (simp add: garbage_def trim_replicate_x lit_def startsWith_replicate)

lemma line_fis_replicate_x: "line_fis parse buf (replicate n 0x78) = []"
  by (rule garbage_line_fis [OF garbage_replicate_x])

lemma hello_line_valid: "\<not> garbage json_parse (lit hello_line)" "\<not> garbage_p001 json_parse (lit hello_line)"
  by (simp_all add: garbage_def garbage_p001_def payload_def payload_p001_def hello_line_def
      trim_def is_ws_def lit_def startsWith_def json_parse_def is_digit_def escape_def)

lemma empty_content_line_valid:
  "\<not> garbage json_parse (lit empty_content_line)" "\<not> garbage_p001 json_parse (lit empty_content_line)"
  by (simp_all add: garbage_def garbage_p001_def payload_def payload_p001_def empty_content_line_def
      trim_def is_ws_def lit_def startsWith_def json_parse_def is_digit_def escape_def)

lemma ping_line_garbage:
  "garbage json_parse (lit ping_line)" "garbage_p001 json_parse (lit ping_line)"
  by (simp_all add: garbage_def garbage_p001_def payload_def payload_p001_def ping_line_def
      trim_def is_ws_def lit_def startsWith_def json_parse_def is_digit_def escape_def)

text \<open>The scenario of claim C6: two lines that decode, then \<^verbatim>\<open>data: ping\<close>, whose payload
  does not.\<close>

theorem malformed_line_tolerance_witness:
  "garbage json_parse (lit ping_line) \<and> garbage_p001 json_parse (lit ping_line)
   \<and> line_p000 json_parse (lit ping_line) = []
   \<and> line_fis json_parse [] (lit ping_line) = []
   \<and> line_p001 json_parse (lit ping_line) = []
   \<and> list_all (\<lambda>l. length l < 4096)
        (split_nl (decoded new_decoder
           [ascii hello_line @ [0x0A], ascii empty_content_line @ [0x0A], ascii ping_line @ [0x0A]]))
   \<and> snd (feed_chunks (feed_fis json_parse) new_reassembler
           [ascii hello_line @ [0x0A], ascii empty_content_line @ [0x0A], ascii ping_line @ [0x0A]])
       = concat (map (line_fis json_parse []) [lit hello_line, lit empty_content_line])
   \<and> snd (feed_chunks (feed_p001 json_parse) new_reassembler
           [ascii hello_line @ [0x0A], ascii empty_content_line @ [0x0A], ascii ping_line @ [0x0A]])
       = concat (map (line_p001 json_parse) [lit hello_line, lit empty_content_line])"
proof -
  let ?cs = "[ascii hello_line @ [0x0A], ascii empty_content_line @ [0x0A], ascii ping_line @ [0x0A]]"
  have lines: "complete_lines (decoded new_decoder ?cs)
      = [lit hello_line, lit empty_content_line, lit ping_line]"
    by (simp add: scenario_decoded complete_lines_def scenario_split)
  have short: "\<forall>l \<in> set (split_nl (decoded new_decoder ?cs)). length l < 4096"
    by (simp add: scenario_decoded scenario_split hello_line_length scenario_lengths)
  have valid: "filter (\<lambda>l. \<not> garbage json_parse l) [lit hello_line, lit empty_content_line, lit ping_line]
      = [lit hello_line, lit empty_content_line]"
    by (simp add: hello_line_valid empty_content_line_valid ping_line_garbage)
  have valid_p001: "filter (\<lambda>l. \<not> garbage_p001 json_parse l)
        [lit hello_line, lit empty_content_line, lit ping_line]
      = [lit hello_line, lit empty_content_line]"
    by (simp add: hello_line_valid empty_content_line_valid ping_line_garbage)
  from malformed_line_tolerance [of json_parse "lit ping_line" "[]" ?cs]
    ping_line_garbage short
  show ?thesis
    by (simp only: lines valid valid_p001 list_all_iff simp_thms)
qed

text \<open>Claim C5 as it is stated fails in \<^verbatim>\<open>fis.ts\<close>: a line that decodes, then a garbage line
  of 4096 code units whose newline comes in the next chunk.  The line that is not garbage
  carries \<open>Hello\<close>, and the stream writes nothing.\<close>

theorem malformed_line_counterexample_fis:
  "snd (feed_chunks (feed_fis json_parse) new_reassembler
          [ascii hello_line @ 0x0A # replicate 4096 0x78, [0x0A]]) = []
   \<and> concat (map (line_fis json_parse [])
        (filter (\<lambda>l. \<not> garbage json_parse l)
           (complete_lines (decoded new_decoder
              [ascii hello_line @ 0x0A # replicate 4096 0x78, [0x0A]]))))
       = [JStr (lit ''Hello'')]"
proof -
  let ?xs = "replicate 4096 (0x78 :: byte)"
  let ?ys = "replicate 4096 (0x78 :: 16 word)"
  let ?d = "new_decoder\<lparr>bom_seen := True\<rparr>"
  have a1: "\<forall>w \<in> set (ascii hello_line @ [0x0A]). w < 0x80"
    using hello_line_ascii by simp
  have d0: "decode new_decoder (ascii hello_line @ [0x0A]) = (?d, lit hello_line @ [0x0A])"
    using decode_ascii [OF _ a1, of new_decoder]
    by (simp add: new_decoder_def map_ucast_ascii)
  have dx: "decode ?d ?xs = (?d, ?ys)"
    using decode_ascii [of ?d ?xs] by (simp add: new_decoder_def)
  have d1: "decode new_decoder (ascii hello_line @ 0x0A # ?xs) = (?d, lit hello_line @ 0x0A # ?ys)"
    using decode_append [of new_decoder "ascii hello_line @ [0x0A]" ?xs]
    by (simp add: d0 dx)
  have d2: "decode_byte ?d 0x0A = (?d, [0x0A])"
    using decode_byte_ascii [of ?d "0x0A"] by (simp add: new_decoder_def)
  have d12: "decode new_decoder (ascii hello_line @ 0x0A # ?xs @ [0x0A])
      = (?d, lit hello_line @ 0x0A # ?ys @ [0x0A])"
    using decode_append [of new_decoder "ascii hello_line @ 0x0A # ?xs" "[0x0A]"]
    by (simp add: d1 d2)
  have nl: "0x0A \<notin> set ?ys" by simp
  have sy: "split_nl (?ys @ [0x0A]) = [?ys, []]"
    using split_nl_line [OF nl, of "[]"] by simp
  have s1: "split_nl (lit hello_line @ 0x0A # ?ys) = [lit hello_line, ?ys]"
    using split_nl_line [OF hello_line_no_newline, of ?ys] split_nl_no_newline [OF nl] by simp
  have s12: "split_nl (lit hello_line @ 0x0A # ?ys @ [0x0A]) = [lit hello_line, ?ys, []]"
    using split_nl_line [OF hello_line_no_newline, of "?ys @ [0x0A]"] sy by simp
  have f1: "feed_fis json_parse new_reassembler (ascii hello_line @ 0x0A # ?xs)
      = (\<lparr>decoder = ?d, buffer = ?ys\<rparr>, [])"
    using line_fis_guard [of json_parse ?ys "lit hello_line"]
    by (simp add: feed_fis_def d1 s1 pop_or_empty_def)
  have f2: "feed_fis json_parse \<lparr>decoder = ?d, buffer = ?ys\<rparr> [0x0A]
      = (\<lparr>decoder = ?d, buffer = []\<rparr>, [])"
    by (simp add: feed_fis_def d2 sy pop_or_empty_def line_fis_replicate_x)
  have lines: "complete_lines (decoded new_decoder [ascii hello_line @ 0x0A # ?xs, [0x0A]])
      = [lit hello_line, ?ys]"
    by (simp add: decoded_def complete_lines_def d12 s12)
  have valid: "filter (\<lambda>l. \<not> garbage json_parse l) [lit hello_line, ?ys] = [lit hello_line]"
    by (simp add: hello_line_valid garbage_replicate_x)
  have written: "snd (feed_chunks (feed_fis json_parse) new_reassembler
      [ascii hello_line @ 0x0A # ?xs, [0x0A]]) = []"
    using f1 f2 by simp
  have expected: "concat (map (line_fis json_parse [])
      (filter (\<lambda>l. \<not> garbage json_parse l)
         (complete_lines (decoded new_decoder [ascii hello_line @ 0x0A # ?xs, [0x0A]]))))
      = [JStr (lit ''Hello'')]"
    by (simp only: lines valid) (simp add: hello_line_fis)
  from written expected show ?thesis by (rule conjI)
qed

section \<open>The terminal event\<close>

lemma no_terminal_Text: "filter is_terminal (map Text ws) = []"
  by (induction ws) auto

lemma no_terminal_event_of: "filter is_terminal (map event_of ws) = []"
proof (induction ws)
  case Nil
  then show ?case by simp
next
  case (Cons w ws)
  then show ?case by (cases w) auto
qed

lemma terminal_fis:
  "is_terminal (last (events (handle_fis parse userThreads req)))
   \<and> length (filter is_terminal (events (handle_fis parse userThreads req))) = 1"
proof -
  obtain ut cs res where c: "connect parse userThreads req (run_fetch req) = (ut, cs, res)"
    by (cases "connect parse userThreads req (run_fetch req)")
  show ?thesis
  proof (cases res)
    case (Inl e)
    with c show ?thesis by (simp add: handle_fis_def)
  next
    case (Inr userLogin)
    obtain ws ex where l: "loop_fis parse (reads req) new_reassembler = (ws, ex)"
      by (cases "loop_fis parse (reads req) new_reassembler")
    with c Inr show ?thesis
      by (cases ex) (simp_all add: handle_fis_def no_terminal_Text)
  qed
qed

lemma terminal_p000:
  "is_terminal (last (events (handle_p000 parse userThreads req)))
   \<and> length (filter is_terminal (events (handle_p000 parse userThreads req))) = 1"
proof -
  obtain ut cs res where c: "connect parse userThreads req (run_fetch req) = (ut, cs, res)"
    by (cases "connect parse userThreads req (run_fetch req)")
  show ?thesis
  proof (cases res)
    case (Inl e)
    with c show ?thesis by (simp add: handle_p000_def)
  next
    case (Inr userLogin)
    obtain ws ex where l: "loop_p000 parse (reads req)
        \<lparr>reasm = new_reassembler, hasValidContent = False\<rparr> = (ws, ex)"
      by (cases "loop_p000 parse (reads req) \<lparr>reasm = new_reassembler, hasValidContent = False\<rparr>")
    with c Inr show ?thesis
      by (cases ex) (simp_all add: handle_p000_def no_terminal_Text)
  qed
qed

lemma terminal_p001:
  "is_terminal (last (events (handle_p001 parse userThreads req)))
   \<and> length (filter is_terminal (events (handle_p001 parse userThreads req))) = 1"
proof -
  obtain ut cs res where c: "connect parse userThreads req (with_timeout req) = (ut, cs, res)"
    by (cases "connect parse userThreads req (with_timeout req)")
  show ?thesis
  proof (cases res)
    case (Inl e)
    with c show ?thesis by (simp add: handle_p001_def)
  next
    case (Inr userLogin)
    obtain ws st where l: "loop_p001 parse (reads req)
        \<lparr>reasm = new_reassembler, hasValidContent = False,
         consecutiveEmptyReads = 0, lastActivityTime = start_time req\<rparr> = (ws, st)"
      by (cases "loop_p001 parse (reads req)
        \<lparr>reasm = new_reassembler, hasValidContent = False,
         consecutiveEmptyReads = 0, lastActivityTime = start_time req\<rparr>")
    with c Inr show ?thesis
      by (simp add: handle_p001_def no_terminal_event_of)
  qed
qed

text \<open>Claim C2.  Whatever the upstream does (the user lookup, the two fetches, the
  timeout of \<^verbatim>\<open>part_001\<close>, any script of reads ending in a close or a failure) and whatever
  the map holds, each handler writes exactly one terminal event, \<open>Done\<close> or \<open>Errors\<close>,
  and it is the last event written; the first event is \<open>Ack\<close>.\<close>

theorem exactly_one_terminal_event:
  "is_terminal (last (events (handle_fis parse userThreads req)))
   \<and> length (filter is_terminal (events (handle_fis parse userThreads req))) = 1
   \<and> hd (events (handle_fis parse userThreads req)) = Ack
   \<and> is_terminal (last (events (handle_p000 parse userThreads req)))
   \<and> length (filter is_terminal (events (handle_p000 parse userThreads req))) = 1
   \<and> hd (events (handle_p000 parse userThreads req)) = Ack
   \<and> is_terminal (last (events (handle_p001 parse userThreads req)))
   \<and> length (filter is_terminal (events (handle_p001 parse userThreads req))) = 1
   \<and> hd (events (handle_p001 parse userThreads req)) = Ack"
proof -
  have "hd (events (handle_fis parse userThreads req)) = Ack"
    by (simp add: handle_fis_def split: prod.splits sum.splits)
  moreover have "hd (events (handle_p000 parse userThreads req)) = Ack"
    by (simp add: handle_p000_def split: prod.splits sum.splits)
  moreover have "hd (events (handle_p001 parse userThreads req)) = Ack"
    by (simp add: handle_p001_def split: prod.splits sum.splits)
  ultimately show ?thesis
    using terminal_fis [of parse userThreads req] terminal_p000 [of parse userThreads req]
      terminal_p001 [of parse userThreads req]
    by simp
qed

section \<open>Creating a conversation\<close>

lemma get_field_of:
  "v \<noteq> JNull \<Longrightarrow> v \<noteq> JUndefined \<Longrightarrow> get v k = Some (field_of v k)"
  by (cases v) (simp_all add: field_of_def)

text \<open>Claim C8, as the code has it.  The call rejects when the fetch rejects, with
  \<open>CreateThreadFailed\<close> and the response text when the response is not \<^verbatim>\<open>ok\<close>, when the
  body is not JSON, and when the body is \<^verbatim>\<open>null\<close>.  For any other body it returns the
  value of the first field, in the order \<^verbatim>\<open>thread_id\<close>, \<^verbatim>\<open>id\<close>, \<^verbatim>\<open>uuid\<close>, whose value is
  truthy, and rejects with \<open>MissingThreadId\<close> when no field has a truthy value; so it
  rejects when the body is an object with none of the three fields.\<close>

theorem create_conversation_response:
  "createConversation parse (Inl e) = Inl e
   \<and> (\<not> ok resp \<longrightarrow>
        createConversation parse (Inr resp) = Inl (CreateThreadFailed (body_text resp)))
   \<and> (ok resp \<and> parse (body_text resp) = None \<longrightarrow>
        createConversation parse (Inr resp) = Inl JsonSyntaxError)
   \<and> (ok resp \<and> parse (body_text resp) = Some JNull \<longrightarrow>
        createConversation parse (Inr resp) = Inl PropertyOfNull)
   \<and> (ok resp \<and> parse (body_text resp) = Some threadData \<and> threadData \<noteq> JNull
        \<and> threadData \<noteq> JUndefined \<longrightarrow>
        createConversation parse (Inr resp) =
          (case find truthy (map (field_of threadData) handle_fields) of
             None \<Rightarrow> Inl MissingThreadId
           | Some threadId \<Rightarrow> Inr threadId))
   \<and> (ok resp \<and> parse (body_text resp) = Some (JObj kvs)
        \<and> set handle_fields \<inter> dom (map_of kvs) = {} \<longrightarrow>
        createConversation parse (Inr resp) = Inl MissingThreadId)"
proof (intro conjI impI)
  show "createConversation parse (Inl e) = Inl e"
    by (simp add: createConversation_def)
  show "createConversation parse (Inr resp) = Inl (CreateThreadFailed (body_text resp))"
    if "\<not> ok resp"
    using that by (simp add: createConversation_def)
  show "createConversation parse (Inr resp) = Inl JsonSyntaxError"
    if "ok resp \<and> parse (body_text resp) = None"
    using that by (simp add: createConversation_def)
  show "createConversation parse (Inr resp) = Inl PropertyOfNull"
    if "ok resp \<and> parse (body_text resp) = Some JNull"
    using that by (simp add: createConversation_def)
  show "createConversation parse (Inr resp) =
          (case find truthy (map (field_of threadData) handle_fields) of
             None \<Rightarrow> Inl MissingThreadId
           | Some threadId \<Rightarrow> Inr threadId)"
    if "ok resp \<and> parse (body_text resp) = Some threadData \<and> threadData \<noteq> JNull
        \<and> threadData \<noteq> JUndefined"
    using that by (simp add: createConversation_def get_field_of handle_fields_def)
  show "createConversation parse (Inr resp) = Inl MissingThreadId"
    if h: "ok resp \<and> parse (body_text resp) = Some (JObj kvs)
        \<and> set handle_fields \<inter> dom (map_of kvs) = {}"
  proof -
    from h have "map_of kvs (lit ''thread_id'') = None" "map_of kvs (lit ''id'') = None"
      "map_of kvs (lit ''uuid'') = None"
      by (auto simp: handle_fields_def)
    with h show ?thesis by (simp add: createConversation_def)
  qed
qed

lemma parse_id_uuid:
  \<open>json_parse (lit ''{"id":"abc","uuid":"u-1"}'')
     = Some (JObj [(lit ''uuid'', JStr (lit ''u-1'')), (lit ''id'', JStr (lit ''abc''))])\<close>
  by (simp add: json_parse_def lit_def startsWith_def is_digit_def escape_def)

lemma parse_empty_thread_id:
  \<open>json_parse (lit ''{"thread_id":"","id":"abc"}'')
     = Some (JObj [(lit ''id'', JStr (lit ''abc'')), (lit ''thread_id'', JStr [])])\<close>
  by (simp add: json_parse_def lit_def startsWith_def is_digit_def escape_def)

lemma parse_only_empty_thread_id:
  \<open>json_parse (lit ''{"thread_id":""}'') = Some (JObj [(lit ''thread_id'', JStr [])])\<close>
  by (simp add: json_parse_def lit_def startsWith_def is_digit_def escape_def)

text \<open>A body with \<^verbatim>\<open>id\<close> and \<^verbatim>\<open>uuid\<close> and no \<^verbatim>\<open>thread_id\<close>; a response that is not \<^verbatim>\<open>ok\<close>.\<close>

theorem create_conversation_response_witness:
  \<open>createConversation json_parse (Inr (ok_response (lit ''{"id":"abc","uuid":"u-1"}'')))
     = Inr (JStr (lit ''abc''))
   \<and> createConversation json_parse
        (Inr \<lparr>ok = False, status = 500, statusText = lit ''Internal Server Error'',
              has_body = True, body_text = lit ''boom''\<rparr>)
     = Inl (CreateThreadFailed (lit ''boom''))
   \<and> createConversation json_parse (Inr (ok_response (lit ''{}''))) = Inl MissingThreadId\<close>
proof -
  let ?v = "JObj [(lit ''uuid'', JStr (lit ''u-1'')), (lit ''id'', JStr (lit ''abc''))]"
  let ?r = \<open>ok_response (lit ''{"id":"abc","uuid":"u-1"}'')\<close>
  let ?bad = "\<lparr>ok = False, status = 500, statusText = lit ''Internal Server Error'',
              has_body = True, body_text = lit ''boom''\<rparr>"
  have a: "ok ?r \<and> json_parse (body_text ?r) = Some ?v \<and> ?v \<noteq> JNull \<and> ?v \<noteq> JUndefined"
    by (simp add: ok_response_def parse_id_uuid)
  have f: "find truthy (map (field_of ?v) handle_fields) = Some (JStr (lit ''abc''))"
    by (simp add: handle_fields_def field_of_def lit_def)
  have b: "\<not> ok ?bad" by simp
  have e: "json_parse (lit ''{}'') = Some (JObj [])"
    by (simp add: json_parse_def lit_def startsWith_def is_digit_def)
  have c: "ok (ok_response (lit ''{}'')) \<and> json_parse (body_text (ok_response (lit ''{}''))) = Some (JObj [])
      \<and> set handle_fields \<inter> dom (map_of ([] :: (jstring \<times> jsval) list)) = {}"
    by (simp add: ok_response_def e)
  from create_conversation_response [of json_parse _ ?r ?v] a f
  have 1: "createConversation json_parse (Inr ?r) = Inr (JStr (lit ''abc''))" by simp
  from create_conversation_response [of json_parse _ ?bad] b
  have 2: "createConversation json_parse (Inr ?bad) = Inl (CreateThreadFailed (lit ''boom''))"
    by simp
  from create_conversation_response [of json_parse _ "ok_response (lit ''{}'')" _ "[]"] c
  have 3: "createConversation json_parse (Inr (ok_response (lit ''{}''))) = Inl MissingThreadId"
    by blast
  from 1 2 3 show ?thesis by simp
qed

text \<open>Claim C8 as it is stated fails: \<^verbatim>\<open>||\<close> skips a field that is present with a falsy
  value.  With \<^verbatim>\<open>thread_id\<close> present and empty the call returns the value of \<^verbatim>\<open>id\<close>, not
  that of the first present field; with \<^verbatim>\<open>thread_id\<close> present and empty and nothing else it
  rejects, although a recognised field is present.\<close>

theorem create_conversation_counterexample:
  \<open>json_parse (lit ''{"thread_id":"","id":"abc"}'')
     = Some (JObj [(lit ''id'', JStr (lit ''abc'')), (lit ''thread_id'', JStr [])])
   \<and> createConversation json_parse (Inr (ok_response (lit ''{"thread_id":"","id":"abc"}'')))
     = Inr (JStr (lit ''abc''))
   \<and> json_parse (lit ''{"thread_id":""}'') = Some (JObj [(lit ''thread_id'', JStr [])])
   \<and> createConversation json_parse (Inr (ok_response (lit ''{"thread_id":""}'')))
     = Inl MissingThreadId\<close>
  by (simp add: createConversation_def ok_response_def parse_empty_thread_id
      parse_only_empty_thread_id) (simp add: lit_def)

section \<open>Session reuse\<close>

lemma createConversation_truthy: "createConversation parse fetched = Inr h \<Longrightarrow> truthy h"
  by (auto simp: createConversation_def split: sum.splits if_splits option.splits)

lemma resolve_cold:
  "userThreads u = None \<Longrightarrow>
   resolve parse userThreads u fetched =
     (case createConversation parse fetched of
        Inl e \<Rightarrow> (userThreads, [CreateThread], Inl e)
      | Inr h \<Rightarrow> (userThreads(u \<mapsto> h), [CreateThread], Inr h))"
  by (simp add: resolve_def)

lemma resolve_warm:
  "userThreads u = Some h \<Longrightarrow> truthy h \<Longrightarrow> resolve parse userThreads u fetched = (userThreads, [], Inr h)"
  by (simp add: resolve_def)

lemma connect_resolved:
  assumes "login req = Inr u"
    and "resolve parse userThreads u (thread_fetch req) = (ut, cs, Inr h)"
  shows "fst (connect parse userThreads req run) = ut"
    and "fst (snd (connect parse userThreads req run)) = GetUser # cs @ [RunStream h (userPrompt req)]"
  using assms by (simp_all add: connect_def split: sum.splits)

lemma connect_unresolved:
  assumes "login req = Inr u"
    and "resolve parse userThreads u (thread_fetch req) = (ut, cs, Inl e)"
  shows "fst (connect parse userThreads req run) = ut"
    and "fst (snd (connect parse userThreads req run)) = GetUser # cs"
  using assms by (simp_all add: connect_def)

lemma handle_connect:
  "threads (handle_fis parse userThreads req) = fst (connect parse userThreads req (run_fetch req))"
  "calls (handle_fis parse userThreads req) = fst (snd (connect parse userThreads req (run_fetch req)))"
  "threads (handle_p000 parse userThreads req) = fst (connect parse userThreads req (run_fetch req))"
  "calls (handle_p000 parse userThreads req) = fst (snd (connect parse userThreads req (run_fetch req)))"
  "threads (handle_p001 parse userThreads req) = fst (connect parse userThreads req (with_timeout req))"
  "calls (handle_p001 parse userThreads req) = fst (snd (connect parse userThreads req (with_timeout req)))"
  by (simp_all add: handle_fis_def handle_p000_def handle_p001_def split: prod.splits sum.splits)

lemma same_identity_calls:
  assumes h: "\<And>ut req. threads (handler ut req) = fst (connect parse ut req (run ut req))"
      "\<And>ut req. calls (handler ut req) = fst (snd (connect parse ut req (run ut req)))"
    and fresh: "userThreads u = None"
    and l1: "login req1 = Inr u" and l2: "login req2 = Inr u"
    and created: "createConversation parse (thread_fetch req1) = Inr h"
  shows "two_requests handler userThreads req1 req2 =
     [GetUser, CreateThread, RunStream h (userPrompt req1), GetUser, RunStream h (userPrompt req2)]"
proof -
  let ?ut = "userThreads(u \<mapsto> h)"
  have r1: "resolve parse userThreads u (thread_fetch req1) = (?ut, [CreateThread], Inr h)"
    using fresh by (simp add: resolve_cold created)
  have r2: "resolve parse ?ut u (thread_fetch req2) = (?ut, [], Inr h)"
    by (rule resolve_warm) (simp_all add: createConversation_truthy [OF created])
  show ?thesis
    unfolding two_requests_def h
    by (simp add: connect_resolved [OF l1 r1] connect_resolved [OF l2 r2])
qed

lemma distinct_identities_calls:
  assumes h: "\<And>ut req. threads (handler ut req) = fst (connect parse ut req (run ut req))"
      "\<And>ut req. calls (handler ut req) = fst (snd (connect parse ut req (run ut req)))"
    and fresh: "userThreads u = None" "userThreads v = None" "u \<noteq> v"
    and l1: "login req1 = Inr u" and l2: "login req2 = Inr v"
  shows "length (filter (\<lambda>c. c = CreateThread) (two_requests handler userThreads req1 req2)) = 2"
proof -
  obtain ut1 res1 where r1: "resolve parse userThreads u (thread_fetch req1) = (ut1, [CreateThread], res1)"
    and v1: "ut1 v = None"
    using fresh by (cases "createConversation parse (thread_fetch req1)") (simp_all add: resolve_cold)
  obtain ut2 res2 where r2: "resolve parse ut1 v (thread_fetch req2) = (ut2, [CreateThread], res2)"
    using v1 by (cases "createConversation parse (thread_fetch req2)") (simp_all add: resolve_cold)
  have c1: "fst (connect parse userThreads req1 run1) = ut1
      \<and> length (filter (\<lambda>c. c = CreateThread) (fst (snd (connect parse userThreads req1 run1)))) = 1"
    for run1
    using connect_resolved [OF l1, of parse userThreads ut1 "[CreateThread]" _ run1]
      connect_unresolved [OF l1, of parse userThreads ut1 "[CreateThread]" _ run1] r1
    by (cases res1) simp_all
  have c2: "length (filter (\<lambda>c. c = CreateThread) (fst (snd (connect parse ut1 req2 run2)))) = 1"
    for run2
    using connect_resolved [OF l2, of parse ut1 ut2 "[CreateThread]" _ run2]
      connect_unresolved [OF l2, of parse ut1 ut2 "[CreateThread]" _ run2] r2
    by (cases res2) simp_all
  show ?thesis
    unfolding two_requests_def h by (simp add: c1 c2)
qed

text \<open>Claim C7.  In each revision: two requests in a row from a login that the map does
  not hold yet, the first of which creates its thread, make one creation call and two
  run calls, both on the handle created; two requests from two different logins that
  the map does not hold make two creation calls; and for a login the map holds,
  \<open>resolve\<close> returns the stored handle, makes no call and leaves the map as it is.\<close>

theorem session_reuse:
  "(userThreads u = None \<and> login reqA = Inr u \<and> login reqB = Inr u
      \<and> createConversation parse (thread_fetch reqA) = Inr h \<longrightarrow>
      two_requests (handle_fis parse) userThreads reqA reqB =
        [GetUser, CreateThread, RunStream h (userPrompt reqA), GetUser, RunStream h (userPrompt reqB)]
      \<and> two_requests (handle_p000 parse) userThreads reqA reqB =
        [GetUser, CreateThread, RunStream h (userPrompt reqA), GetUser, RunStream h (userPrompt reqB)]
      \<and> two_requests (handle_p001 parse) userThreads reqA reqB =
        [GetUser, CreateThread, RunStream h (userPrompt reqA), GetUser, RunStream h (userPrompt reqB)])
   \<and> (userThreads u = None \<and> userThreads v = None \<and> u \<noteq> v
      \<and> login reqA = Inr u \<and> login reqC = Inr v \<longrightarrow>
      length (filter (\<lambda>c. c = CreateThread) (two_requests (handle_fis parse) userThreads reqA reqC)) = 2
      \<and> length (filter (\<lambda>c. c = CreateThread) (two_requests (handle_p000 parse) userThreads reqA reqC)) = 2
      \<and> length (filter (\<lambda>c. c = CreateThread) (two_requests (handle_p001 parse) userThreads reqA reqC)) = 2)
   \<and> (userThreads u = Some stored \<and> truthy stored \<longrightarrow>
      resolve parse userThreads u fetched = (userThreads, [], Inr stored))"
proof (intro conjI impI)
  assume a: "userThreads u = None \<and> login reqA = Inr u \<and> login reqB = Inr u
      \<and> createConversation parse (thread_fetch reqA) = Inr h"
  show "two_requests (handle_fis parse) userThreads reqA reqB =
        [GetUser, CreateThread, RunStream h (userPrompt reqA), GetUser, RunStream h (userPrompt reqB)]"
    using a by (intro same_identity_calls [where run = "\<lambda>ut req. run_fetch req" and parse = parse])
      (simp_all add: handle_connect)
  show "two_requests (handle_p000 parse) userThreads reqA reqB =
        [GetUser, CreateThread, RunStream h (userPrompt reqA), GetUser, RunStream h (userPrompt reqB)]"
    using a by (intro same_identity_calls [where run = "\<lambda>ut req. run_fetch req" and parse = parse])
      (simp_all add: handle_connect)
  show "two_requests (handle_p001 parse) userThreads reqA reqB =
        [GetUser, CreateThread, RunStream h (userPrompt reqA), GetUser, RunStream h (userPrompt reqB)]"
    using a by (intro same_identity_calls [where run = "\<lambda>ut req. with_timeout req" and parse = parse])
      (simp_all add: handle_connect)
next
  assume a: "userThreads u = None \<and> userThreads v = None \<and> u \<noteq> v
      \<and> login reqA = Inr u \<and> login reqC = Inr v"
  show "length (filter (\<lambda>c. c = CreateThread) (two_requests (handle_fis parse) userThreads reqA reqC)) = 2"
    using a by (intro distinct_identities_calls [where run = "\<lambda>ut req. run_fetch req" and parse = parse
          and u = u and v = v])
      (simp_all add: handle_connect)
  show "length (filter (\<lambda>c. c = CreateThread) (two_requests (handle_p000 parse) userThreads reqA reqC)) = 2"
    using a by (intro distinct_identities_calls [where run = "\<lambda>ut req. run_fetch req" and parse = parse
          and u = u and v = v])
      (simp_all add: handle_connect)
  show "length (filter (\<lambda>c. c = CreateThread) (two_requests (handle_p001 parse) userThreads reqA reqC)) = 2"
    using a by (intro distinct_identities_calls [where run = "\<lambda>ut req. with_timeout req" and parse = parse
          and u = u and v = v])
      (simp_all add: handle_connect)
next
  assume "userThreads u = Some stored \<and> truthy stored"
  then show "resolve parse userThreads u fetched = (userThreads, [], Inr stored)"
    by (simp add: resolve_warm)
qed

lemma parse_thread_id:
  \<open>json_parse (lit ''{"thread_id":"t-1"}'') = Some (JObj [(lit ''thread_id'', JStr (lit ''t-1''))])\<close>
  by (simp add: json_parse_def lit_def startsWith_def is_digit_def escape_def)

lemma working_request_creates:
  "createConversation json_parse (thread_fetch (working_request userLogin prompt)) = Inr (JStr (lit ''t-1''))"
  by (simp add: working_request_def createConversation_def ok_response_def parse_thread_id)
     (simp add: lit_def)

theorem session_reuse_witness:
  "two_requests (handle_p001 json_parse) Map.empty
      (working_request (lit ''octocat'') (lit ''first'')) (working_request (lit ''octocat'') (lit ''second''))
     = [GetUser, CreateThread, RunStream (JStr (lit ''t-1'')) (lit ''first''),
        GetUser, RunStream (JStr (lit ''t-1'')) (lit ''second'')]
   \<and> two_requests (handle_fis json_parse) Map.empty
      (working_request (lit ''octocat'') (lit ''first'')) (working_request (lit ''octocat'') (lit ''second''))
     = [GetUser, CreateThread, RunStream (JStr (lit ''t-1'')) (lit ''first''),
        GetUser, RunStream (JStr (lit ''t-1'')) (lit ''second'')]
   \<and> length (filter (\<lambda>c. c = CreateThread)
        (two_requests (handle_p001 json_parse) Map.empty
           (working_request (lit ''octocat'') (lit ''first'')) (working_request (lit ''hubot'') (lit ''second''))))
     = 2
   \<and> resolve json_parse [lit ''octocat'' \<mapsto> JStr (lit ''t-1'')] (lit ''octocat'') (Inl (Rejected []))
     = ([lit ''octocat'' \<mapsto> JStr (lit ''t-1'')], [], Inr (JStr (lit ''t-1'')))"
proof -
  let ?r1 = "working_request (lit ''octocat'') (lit ''first'')"
  let ?r2 = "working_request (lit ''octocat'') (lit ''second'')"
  let ?r3 = "working_request (lit ''hubot'') (lit ''second'')"
  have logins: "login ?r1 = Inr (lit ''octocat'')" "login ?r2 = Inr (lit ''octocat'')"
    "login ?r3 = Inr (lit ''hubot'')"
    by (simp_all add: working_request_def)
  have prompts: "userPrompt ?r1 = lit ''first''" "userPrompt ?r2 = lit ''second''"
    by (simp_all add: working_request_def)
  have different: "lit ''octocat'' \<noteq> lit ''hubot''"
    by (simp add: lit_def)
  have stored: "[lit ''octocat'' \<mapsto> JStr (lit ''t-1'')] (lit ''octocat'') = Some (JStr (lit ''t-1''))
      \<and> truthy (JStr (lit ''t-1''))"
    by (simp add: lit_def)
  from session_reuse [where userThreads = Map.empty and u = "lit ''octocat''" and v = "lit ''hubot''"
      and reqA = ?r1 and reqB = ?r2 and reqC = ?r3 and parse = json_parse
      and h = "JStr (lit ''t-1'')"]
    logins different working_request_creates [of "lit ''octocat''" "lit ''first''"]
  have a: "two_requests (handle_p001 json_parse) Map.empty ?r1 ?r2
      = [GetUser, CreateThread, RunStream (JStr (lit ''t-1'')) (lit ''first''),
         GetUser, RunStream (JStr (lit ''t-1'')) (lit ''second'')]"
    and b: "two_requests (handle_fis json_parse) Map.empty ?r1 ?r2
      = [GetUser, CreateThread, RunStream (JStr (lit ''t-1'')) (lit ''first''),
         GetUser, RunStream (JStr (lit ''t-1'')) (lit ''second'')]"
    and c: "length (filter (\<lambda>c. c = CreateThread)
        (two_requests (handle_p001 json_parse) Map.empty ?r1 ?r3)) = 2"
    by (simp_all add: prompts)
  from session_reuse [where userThreads = "[lit ''octocat'' \<mapsto> JStr (lit ''t-1'')]"
      and u = "lit ''octocat''" and stored = "JStr (lit ''t-1'')" and parse = json_parse
      and fetched = "Inl (Rejected [])"] stored
  have d: "resolve json_parse [lit ''octocat'' \<mapsto> JStr (lit ''t-1'')] (lit ''octocat'') (Inl (Rejected []))
     = ([lit ''octocat'' \<mapsto> JStr (lit ''t-1'')], [], Inr (JStr (lit ''t-1'')))"
    by blast
  from a b c d show ?thesis by blast
qed

section \<open>What a request writes\<close>

lemma fragments_of_append: "fragments_of (a @ b) = fragments_of a @ fragments_of b"
  by (induction a rule: fragments_of.induct) auto

lemma fragments_of_map: "fragments_of (map Fragment ws) = ws"
  by (induction ws) auto

lemma chunk_of_nonempty: "c \<noteq> [] \<Longrightarrow> chunk_of (Some c) = Some c"
  by (cases c) simp_all

lemma empty_read_flag: "empty_read now st = (ws, st') \<Longrightarrow>
    hasValidContent st' = hasValidContent st \<and> fragments_of ws = []"
  by (auto simp: empty_read_def split: if_splits)

lemma loop_p001_flag:
  "hasValidContent (snd (loop_p001 parse rs st))
     = (hasValidContent st \<or> fragments_of (fst (loop_p001 parse rs st)) \<noteq> [])"
proof (induction rs arbitrary: st)
  case Nil
  then show ?case by simp
next
  case (Cons x rs)
  obtain rd now where x: "x = (rd, now)" by (cases x)
  show ?case
  proof (cases rd)
    case (ReadFails e)
    then show ?thesis by (simp add: x)
  next
    case (Read v d)
    show ?thesis
    proof (cases "d")
      case True
      then show ?thesis by (simp add: x Read)
    next
      case notdone: False
      show ?thesis
      proof (cases "chunk_of v")
        case None
        obtain w1 s1 where e: "empty_read now st = (w1, s1)"
          by (cases "empty_read now st")
        note s1 = empty_read_flag [OF e]
        show ?thesis
        proof (cases "consecutiveEmptyReads s1 \<ge> 50")
          case True
          with None notdone e s1 show ?thesis
            by (simp add: x Read)
        next
          case False
          obtain ws s where l: "loop_p001 parse rs s1 = (ws, s)"
            by (cases "loop_p001 parse rs s1")
          from Cons.IH [of s1] l s1 have "hasValidContent s = (hasValidContent st \<or> fragments_of ws \<noteq> [])"
            by simp
          with None notdone False e l s1 show ?thesis
            by (simp add: x Read fragments_of_append)
        qed
      next
        case (Some c)
        obtain r ws where f: "feed_p001 parse (reasm st) c = (r, ws)"
          by (cases "feed_p001 parse (reasm st) c")
        let ?st = "st\<lparr>reasm := r, hasValidContent := hasValidContent st \<or> ws \<noteq> [],
                         consecutiveEmptyReads := 0, lastActivityTime := now\<rparr>"
        obtain ws' s where l: "loop_p001 parse rs ?st = (ws', s)"
          by (cases "loop_p001 parse rs ?st")
        from Cons.IH [of ?st] l
        have "hasValidContent s = ((hasValidContent st \<or> ws \<noteq> []) \<or> fragments_of ws' \<noteq> [])"
          by simp
        with Some notdone f l show ?thesis
          by (simp add: x Read fragments_of_append fragments_of_map)
      qed
    qed
  qed
qed

lemma loop_p000_flag:
  "loop_p000 parse rs st = (ws, Inr st') \<Longrightarrow> hasValidContent st' = (hasValidContent st \<or> ws \<noteq> [])"
proof (induction rs arbitrary: st ws)
  case Nil
  then show ?case by simp
next
  case (Cons x rs)
  obtain rd now where x: "x = (rd, now)" by (cases x)
  show ?case
  proof (cases rd)
    case (ReadFails e)
    with Cons.prems show ?thesis by (simp add: x)
  next
    case (Read v d)
    let ?step = "(case v of None \<Rightarrow> (st, [])
        | Some bytes \<Rightarrow>
            (case feed_p000 parse (reasm st) bytes of
               (r, ws) \<Rightarrow> (st\<lparr>reasm := r, hasValidContent := hasValidContent st \<or> ws \<noteq> []\<rparr>, ws)))"
    obtain s1 w1 where a: "?step = (s1, w1)" by (cases ?step)
    then have s1: "hasValidContent s1 = (hasValidContent st \<or> w1 \<noteq> [])"
      by (cases v) (auto split: prod.splits)
    from Cons.prems have nothrow: "\<not> (v = None \<and> d)"
      by (auto simp: x Read)
    show ?thesis
    proof (cases d)
      case True
      with Cons.prems nothrow a s1 show ?thesis
        by (auto simp: x Read)
    next
      case False
      obtain w2 res where l: "loop_p000 parse rs s1 = (w2, res)"
        by (cases "loop_p000 parse rs s1")
      with Cons.prems nothrow a False have "res = Inr st'" "ws = w1 @ w2"
        by (auto simp: x Read)
      with Cons.IH [of s1 w2] l s1 show ?thesis by auto
    qed
  qed
qed

lemma events_fis:
  assumes "opened (connect parse userThreads req (run_fetch req)) userLogin"
  shows "events (handle_fis parse userThreads req) =
     [Ack, Text (JStr (greeting_fis userLogin))] @ map Text (fst (stream_fis parse req))
       @ [case snd (stream_fis parse req) of Inl e \<Rightarrow> Errors e | Inr u \<Rightarrow> Done]"
  using assms
  by (auto simp: opened_def handle_fis_def stream_fis_def split: prod.splits sum.splits)

lemma events_p000:
  assumes "opened (connect parse userThreads req (run_fetch req)) userLogin"
  shows "events (handle_p000 parse userThreads req) =
     [Ack, Text (JStr (greeting_p000 userLogin))] @ map Text (fst (stream_p000 parse req))
       @ (case snd (stream_p000 parse req) of
            Inl e \<Rightarrow> [Errors e]
          | Inr st \<Rightarrow>
              (if fst (stream_p000 parse req) = [] then [Text (JStr fallback_text)] else []) @ [Done])"
proof -
  obtain ws res where l: "stream_p000 parse req = (ws, res)"
    by (cases "stream_p000 parse req")
  show ?thesis
  proof (cases res)
    case (Inl e)
    with assms l show ?thesis
      by (auto simp: opened_def handle_p000_def stream_p000_def split: prod.splits sum.splits)
  next
    case (Inr st)
    with l have "hasValidContent st = (ws \<noteq> [])"
      using loop_p000_flag [of parse "reads req" _ ws st]
      by (simp add: stream_p000_def)
    with assms l Inr show ?thesis
      by (auto simp: opened_def handle_p000_def stream_p000_def split: prod.splits sum.splits)
  qed
qed

lemma events_p001:
  assumes "opened (connect parse userThreads req (with_timeout req)) userLogin"
  shows "events (handle_p001 parse userThreads req) =
     [Ack, Text (JStr (greeting_p001 userLogin))] @ map event_of (fst (stream_p001 parse req))
       @ (if fragments_of (fst (stream_p001 parse req)) = [] then [Text (JStr fallback_text)] else [])
       @ [Done]"
proof -
  obtain ws st where l: "stream_p001 parse req = (ws, st)"
    by (cases "stream_p001 parse req")
  then have "hasValidContent st = (fragments_of ws \<noteq> [])"
    using loop_p001_flag [of parse "reads req"
        "\<lparr>reasm = new_reassembler, hasValidContent = False,
          consecutiveEmptyReads = 0, lastActivityTime = start_time req\<rparr>"]
    by (simp add: stream_p001_def)
  with assms l show ?thesis
    by (auto simp: opened_def handle_p001_def stream_p001_def split: prod.splits sum.splits)
qed

lemma count_list_replicate: "count_list (replicate n x) y = (if x = y then n else 0)"
  by (induction n) auto

lemma only_keep_alives:
  "fragments_of ws = [] \<Longrightarrow> map event_of ws = replicate (length ws) (Text (JStr keep_alive_text))"
  by (induction ws rule: fragments_of.induct) auto

lemma fallback_text_distinct:
  "fallback_text \<noteq> []" "keep_alive_text \<noteq> fallback_text" "greeting_p001 u \<noteq> fallback_text"
  "greeting_p000 u \<noteq> fallback_text" "greeting_fis u \<noteq> fallback_text"
  by (simp_all add: fallback_text_def keep_alive_text_def greeting_p001_def greeting_p000_def
      greeting_fis_def lit_def)

section \<open>The fallback text\<close>

text \<open>Claim C3, as the code has it.  In \<^verbatim>\<open>part_001\<close>, a request that reached the stream and
  whose loop wrote no content fragment writes \<open>Ack\<close>, the greeting, its keep-alive
  notices, then the fallback text and \<open>Done\<close>; the fallback text is not empty and is
  written once.  In \<^verbatim>\<open>part_000\<close> the fallback text comes before \<open>Done\<close> whenever the loop
  ends without throwing after no fragment.  \<^verbatim>\<open>fis.ts\<close> has no fallback: after no
  fragment it writes \<open>Done\<close> right after the greeting.\<close>

theorem fallback_content:
  "(opened (connect parse userThreads req (with_timeout req)) userLogin
      \<and> fragments_of (fst (stream_p001 parse req)) = [] \<longrightarrow>
      events (handle_p001 parse userThreads req) =
        [Ack, Text (JStr (greeting_p001 userLogin))]
        @ replicate (length (fst (stream_p001 parse req))) (Text (JStr keep_alive_text))
        @ [Text (JStr fallback_text), Done]
      \<and> count_list (events (handle_p001 parse userThreads req)) (Text (JStr fallback_text)) = 1)
   \<and> fallback_text \<noteq> []
   \<and> (opened (connect parse userThreads req (run_fetch req)) userLogin
      \<and> stream_p000 parse req = ([], Inr st) \<longrightarrow>
      events (handle_p000 parse userThreads req) =
        [Ack, Text (JStr (greeting_p000 userLogin)), Text (JStr fallback_text), Done])
   \<and> (opened (connect parse userThreads req (run_fetch req)) userLogin
      \<and> stream_fis parse req = ([], Inr ()) \<longrightarrow>
      events (handle_fis parse userThreads req) =
        [Ack, Text (JStr (greeting_fis userLogin)), Done])"
proof (intro conjI impI)
  assume a: "opened (connect parse userThreads req (with_timeout req)) userLogin
      \<and> fragments_of (fst (stream_p001 parse req)) = []"
  then show e: "events (handle_p001 parse userThreads req) =
        [Ack, Text (JStr (greeting_p001 userLogin))]
        @ replicate (length (fst (stream_p001 parse req))) (Text (JStr keep_alive_text))
        @ [Text (JStr fallback_text), Done]"
    by (simp add: events_p001 [of parse userThreads req userLogin] only_keep_alives)
  show "count_list (events (handle_p001 parse userThreads req)) (Text (JStr fallback_text)) = 1"
    unfolding e by (simp add: count_list_replicate fallback_text_distinct)
next
  show "fallback_text \<noteq> []" by (rule fallback_text_distinct)
next
  assume "opened (connect parse userThreads req (run_fetch req)) userLogin
      \<and> stream_p000 parse req = ([], Inr st)"
  then show "events (handle_p000 parse userThreads req) =
        [Ack, Text (JStr (greeting_p000 userLogin)), Text (JStr fallback_text), Done]"
    by (simp add: events_p000 [of parse userThreads req userLogin])
next
  assume "opened (connect parse userThreads req (run_fetch req)) userLogin
      \<and> stream_fis parse req = ([], Inr ())"
  then show "events (handle_fis parse userThreads req) =
        [Ack, Text (JStr (greeting_fis userLogin)), Done]"
    by (simp add: events_fis [of parse userThreads req userLogin])
qed

lemma working_request_connect:
  "connect json_parse Map.empty ((working_request u p)\<lparr>reads := rs\<rparr>) (Inr (ok_response []))
     = ([u \<mapsto> JStr (lit ''t-1'')], [GetUser, CreateThread, RunStream (JStr (lit ''t-1'')) p], Inr u)"
proof -
  let ?req = "(working_request u p)\<lparr>reads := rs\<rparr>"
  have f: "thread_fetch ?req = thread_fetch (working_request u p)" "login ?req = Inr u"
    "userPrompt ?req = p"
    by (simp_all add: working_request_def)
  show ?thesis
    by (simp add: connect_def resolve_def f working_request_creates check_run_def ok_response_def)
qed

lemma working_request_run:
  "run_fetch ((working_request u p)\<lparr>reads := rs\<rparr>) = Inr (ok_response [])"
  "with_timeout ((working_request u p)\<lparr>reads := rs\<rparr>) = Inr (ok_response [])"
  by (simp_all add: working_request_def with_timeout_def)

lemma feed_line:
  assumes ascii: "\<forall>w \<in> set (ascii s). w < 0x80" and nl: "0x0A \<notin> set (lit s)"
  shows "feed_with line new_reassembler (ascii s @ [0x0A])
     = (\<lparr>decoder = new_decoder\<lparr>bom_seen := True\<rparr>, buffer = []\<rparr>, line [] (lit s))"
proof -
  have "\<forall>w \<in> set (ascii s @ [0x0A]). w < 0x80" using ascii by simp
  from decode_ascii [OF _ this, of new_decoder]
  have d: "decode new_decoder (ascii s @ [0x0A]) = (new_decoder\<lparr>bom_seen := True\<rparr>, lit s @ [0x0A])"
    by (simp add: new_decoder_def map_ucast_ascii)
  have s: "split_nl (lit s @ [0x0A]) = [lit s, []]"
    using split_nl_line [OF nl, of "[]"] by simp
  show ?thesis
    by (simp add: feed_with_def d residual_def complete_lines_def s)
qed

lemma heartbeat_facts:
  "\<forall>w \<in> set (ascii heartbeat). w < 0x80" "0x0A \<notin> set (lit heartbeat)"
  "line_p001 parse (lit heartbeat) = []" "line_fis parse buf (lit heartbeat) = []"
  "line_p000 parse (lit heartbeat) = []"
  by (simp_all add: heartbeat_def ascii_def lit_def line_p001_def line_fis_def line_p000_def
      trim_def is_ws_def startsWith_def)

lemma heartbeat_stream_p001:
  "fst (stream_p001 parse heartbeat_request) = []"
  by (simp add: stream_p001_def heartbeat_request_def feed_p001_with chunk_of_nonempty
      feed_line [OF heartbeat_facts(1,2)] heartbeat_facts)

theorem fallback_content_witness:
  "opened (connect json_parse Map.empty heartbeat_request (with_timeout heartbeat_request)) (lit ''octocat'')
   \<and> fragments_of (fst (stream_p001 json_parse heartbeat_request)) = []
   \<and> events (handle_p001 json_parse Map.empty heartbeat_request) =
        [Ack, Text (JStr (greeting_p001 (lit ''octocat''))), Text (JStr fallback_text), Done]"
proof -
  have o: "opened (connect json_parse Map.empty heartbeat_request (with_timeout heartbeat_request))
      (lit ''octocat'')"
    unfolding heartbeat_request_def working_request_run
    by (simp add: working_request_connect opened_def)
  have s: "fst (stream_p001 json_parse heartbeat_request) = []"
    by (rule heartbeat_stream_p001)
  from fallback_content [of json_parse Map.empty heartbeat_request "lit ''octocat''"] o s
  show ?thesis by simp
qed

text \<open>Claim C3 as it is stated fails in \<^verbatim>\<open>fis.ts\<close>: the stream opens and closes with no data,
  and \<open>Done\<close> follows the greeting with no fallback text.\<close>

theorem fallback_counterexample_fis:
  "events (handle_fis json_parse Map.empty (working_request (lit ''octocat'') (lit ''hi'')))
     = [Ack, Text (JStr (lit ''Hi octocat! '')), Done]"
proof -
  let ?req = "working_request (lit ''octocat'') (lit ''hi'')"
  have r: "?req = ?req\<lparr>reads := []\<rparr>" by (simp add: working_request_def)
  have c: "connect json_parse Map.empty ?req (run_fetch ?req)
      = ([lit ''octocat'' \<mapsto> JStr (lit ''t-1'')],
         [GetUser, CreateThread, RunStream (JStr (lit ''t-1'')) (lit ''hi'')], Inr (lit ''octocat''))"
    using working_request_connect [where u = "lit ''octocat''" and p = "lit ''hi''" and rs = "[]"]
      working_request_run(1) [where u = "lit ''octocat''" and p = "lit ''hi''" and rs = "[]"] r
    by simp
  have l: "reads ?req = []" by (simp add: working_request_def)
  show ?thesis
    by (simp add: handle_fis_def c l greeting_fis_def) (simp add: lit_def)
qed

section \<open>The greeting\<close>

lemma greeting_prefix:
  "startsWith (greeting_fis u) (lit ''Hi '' @ u @ lit ''!'')"
  "startsWith (greeting_p000 u) (lit ''Hi '' @ u @ lit ''!'')"
  "startsWith (greeting_p001 u) (lit ''Hi '' @ u @ lit ''!'')"
  by (simp_all add: startsWith_def greeting_fis_def greeting_p000_def greeting_p001_def lit_def)

text \<open>Claim C10, as the code has it.  In each revision a request that reached the stream
  writes \<open>Ack\<close>, then one greeting that begins \<^verbatim>\<open>Hi <login>!\<close>, then what the loop writes.
  In \<^verbatim>\<open>part_001\<close> the fallback text follows exactly when the loop wrote no content
  fragment, the greeting and the keep-alive notices notwithstanding, and \<open>Done\<close> ends
  the request.  In \<^verbatim>\<open>part_000\<close> the same holds when the loop ends without throwing, and
  the thrown error ends the request otherwise.  \<^verbatim>\<open>fis.ts\<close> has no fallback: \<open>Done\<close>
  or the thrown error follows the writes of the loop.\<close>

theorem greeting_then_content:
  "startsWith (greeting_fis userLogin) (lit ''Hi '' @ userLogin @ lit ''!'')
   \<and> startsWith (greeting_p000 userLogin) (lit ''Hi '' @ userLogin @ lit ''!'')
   \<and> startsWith (greeting_p001 userLogin) (lit ''Hi '' @ userLogin @ lit ''!'')
   \<and> (opened (connect parse userThreads req (with_timeout req)) userLogin \<longrightarrow>
        events (handle_p001 parse userThreads req) =
          [Ack, Text (JStr (greeting_p001 userLogin))] @ map event_of (fst (stream_p001 parse req))
          @ (if fragments_of (fst (stream_p001 parse req)) = [] then [Text (JStr fallback_text)] else [])
          @ [Done])
   \<and> (opened (connect parse userThreads req (run_fetch req)) userLogin \<longrightarrow>
        events (handle_p000 parse userThreads req) =
          [Ack, Text (JStr (greeting_p000 userLogin))] @ map Text (fst (stream_p000 parse req))
          @ (case snd (stream_p000 parse req) of
               Inl e \<Rightarrow> [Errors e]
             | Inr st \<Rightarrow>
                 (if fst (stream_p000 parse req) = [] then [Text (JStr fallback_text)] else [])
                 @ [Done])
        \<and> events (handle_fis parse userThreads req) =
          [Ack, Text (JStr (greeting_fis userLogin))] @ map Text (fst (stream_fis parse req))
          @ [case snd (stream_fis parse req) of Inl e \<Rightarrow> Errors e | Inr u \<Rightarrow> Done])"
  using greeting_prefix [of userLogin]
    events_p001 [of parse userThreads req userLogin]
    events_p000 [of parse userThreads req userLogin]
    events_fis [of parse userThreads req userLogin]
  by blast

lemma hello_stream_p001:
  "fst (stream_p001 json_parse hello_request) = [Fragment (JStr (lit ''Hello''))]"
  by (simp add: stream_p001_def hello_request_def feed_p001_with chunk_of_nonempty
      feed_line [OF hello_line_ascii hello_line_no_newline] hello_line_p001)

theorem greeting_then_content_witness:
  "opened (connect json_parse Map.empty hello_request (with_timeout hello_request)) (lit ''octocat'')
   \<and> events (handle_p001 json_parse Map.empty hello_request) =
        [Ack, Text (JStr (greeting_p001 (lit ''octocat''))), Text (JStr (lit ''Hello'')), Done]"
proof -
  have o: "opened (connect json_parse Map.empty hello_request (with_timeout hello_request))
      (lit ''octocat'')"
    unfolding hello_request_def working_request_run
    by (simp add: working_request_connect opened_def)
  from greeting_then_content [of "lit ''octocat''" json_parse Map.empty hello_request] o
  show ?thesis by (simp add: hello_stream_p001)
qed

text \<open>Claim C10 as it is stated fails in \<^verbatim>\<open>fis.ts\<close>: a stream of one heartbeat gives no
  fragment, and after the greeting comes \<open>Done\<close>, with no fallback text.\<close>

theorem greeting_counterexample_fis:
  "events (handle_fis json_parse Map.empty heartbeat_request)
     = [Ack, Text (JStr (lit ''Hi octocat! '')), Done]"
proof -
  have c: "connect json_parse Map.empty heartbeat_request (run_fetch heartbeat_request)
      = ([lit ''octocat'' \<mapsto> JStr (lit ''t-1'')],
         [GetUser, CreateThread, RunStream (JStr (lit ''t-1'')) (lit ''hi'')], Inr (lit ''octocat''))"
    unfolding heartbeat_request_def working_request_run
    by (rule working_request_connect)
  have l: "loop_fis json_parse (reads heartbeat_request) new_reassembler = ([], Inr ())"
    by (simp add: heartbeat_request_def feed_fis_with
        feed_line [OF heartbeat_facts(1,2)] heartbeat_facts)
  show ?thesis
    by (simp add: handle_fis_def c l greeting_fis_def) (simp add: lit_def)
qed

section \<open>The unterminated tail\<close>

lemma residual_newline: "residual (q @ [0x0A]) = []"
proof -
  have "split_nl (residual q @ [0x0A]) = [residual q, []]"
    using split_nl_line [OF residual_no_newline, of q "[]"] by simp
  then show ?thesis
    using residual_append [of q "[0x0A]"] by (simp add: residual_def)
qed

lemma residual_line_end: "p = [] \<or> last p = 0x0A \<Longrightarrow> residual p = []"
proof (cases "p = []")
  case True
  then show ?thesis by (simp add: residual_def)
next
  case False
  assume "p = [] \<or> last p = 0x0A"
  with False have "p = butlast p @ [0x0A]"
    by (metis append_butlast_last_id)
  then show ?thesis
    using residual_newline [of "butlast p"] by simp
qed

lemma tail_split:
  assumes "0x0A \<notin> set t" and "p = [] \<or> last p = 0x0A"
  shows "complete_lines (p @ t) = complete_lines p" and "residual (p @ t) = t"
  using complete_lines_append [of p t] residual_append [of p t] residual_line_end [OF assms(2)]
    assms(1)
  by (simp_all add: complete_lines_no_newline residual_idem)

lemma feed_chunks_buffer:
  "buffer (fst (feed_chunks (feed_with line) new_reassembler cs)) = residual (decoded new_decoder cs)"
  using feed_chunks_state [of line new_reassembler cs "\<lambda>buf. line []"]
  by (simp add: feed_chunks_with)

lemma loop_fis_data:
  "map fst rs = map (\<lambda>c. Read (Some c) False) cs \<Longrightarrow>
   loop_fis parse rs r = (snd (feed_chunks (feed_fis parse) r cs), Inr ())"
proof (induction cs arbitrary: rs r)
  case Nil
  then show ?case by simp
next
  case (Cons c cs)
  then obtain now rs' where rs: "rs = (Read (Some c) False, now) # rs'"
    and rest: "map fst rs' = map (\<lambda>c. Read (Some c) False) cs"
    by (cases rs) auto
  obtain r1 w1 where f: "feed_fis parse r c = (r1, w1)" by (cases "feed_fis parse r c")
  from Cons.IH [OF rest, of r1] show ?case
    by (simp add: rs f split: prod.splits)
qed

lemma loop_p000_data:
  "map fst rs = map (\<lambda>c. Read (Some c) False) cs \<Longrightarrow>
   loop_p000 parse rs st = (snd (feed_chunks (feed_p000 parse) (reasm st) cs), Inl ClosedBeforeData)"
proof (induction cs arbitrary: rs st)
  case Nil
  then show ?case by simp
next
  case (Cons c cs)
  then obtain now rs' where rs: "rs = (Read (Some c) False, now) # rs'"
    and rest: "map fst rs' = map (\<lambda>c. Read (Some c) False) cs"
    by (cases rs) auto
  obtain r1 w1 where f: "feed_p000 parse (reasm st) c = (r1, w1)"
    by (cases "feed_p000 parse (reasm st) c")
  from Cons.IH [OF rest, of "st\<lparr>reasm := r1, hasValidContent := hasValidContent st \<or> w1 \<noteq> []\<rparr>"]
  show ?case
    by (simp add: rs f split: prod.splits)
qed

lemma loop_p001_data:
  "map fst rs = map (\<lambda>c. Read (Some c) False) cs \<Longrightarrow> [] \<notin> set cs \<Longrightarrow>
   fst (loop_p001 parse rs st) = map Fragment (snd (feed_chunks (feed_p001 parse) (reasm st) cs))"
proof (induction cs arbitrary: rs st)
  case Nil
  then show ?case by simp
next
  case (Cons c cs)
  then obtain now rs' where rs: "rs = (Read (Some c) False, now) # rs'"
    and rest: "map fst rs' = map (\<lambda>c. Read (Some c) False) cs"
    by (cases rs) auto
  from Cons.prems have c: "c \<noteq> []" and cs: "[] \<notin> set cs" by auto
  obtain r1 w1 where f: "feed_p001 parse (reasm st) c = (r1, w1)"
    by (cases "feed_p001 parse (reasm st) c")
  let ?st = "st\<lparr>reasm := r1, hasValidContent := hasValidContent st \<or> w1 \<noteq> [],
      consecutiveEmptyReads := 0, lastActivityTime := now\<rparr>"
  obtain ws' s where l: "loop_p001 parse rs' ?st = (ws', s)"
    by (cases "loop_p001 parse rs' ?st")
  obtain r2 w2 where fc: "feed_chunks (feed_p001 parse) r1 cs = (r2, w2)"
    by (cases "feed_chunks (feed_p001 parse) r1 cs")
  from Cons.IH [OF rest cs, of ?st] l fc have "ws' = map Fragment w2" by simp
  moreover from c have "chunk_of (Some c) = Some c" by (rule chunk_of_nonempty)
  ultimately show ?case
    by (simp add: rs f l fc)
qed

text \<open>Claim C9.  Let the stream decode to \<open>p @ t\<close>, where \<open>t\<close> has no newline and \<open>p\<close> is
  empty or ends with one: \<open>t\<close> is the unterminated tail, a data record or anything else.
  Whatever the chunking, what is written comes from the complete lines of \<open>p\<close> alone
  (all of them in \<^verbatim>\<open>part_000\<close> and \<^verbatim>\<open>part_001\<close>, a subsequence in \<^verbatim>\<open>fis.ts\<close>), and \<open>t\<close> is
  what the pending buffer holds at the end.  The handlers do not read the buffer after
  the loop: a request whose reads are these chunks writes the greeting, those values,
  and its ending.\<close>

theorem unterminated_tail_dropped:
  assumes "decoded new_decoder cs = p @ t" and "0x0A \<notin> set t" and "p = [] \<or> last p = 0x0A"
  shows "snd (feed_chunks (feed_p001 parse) new_reassembler cs)
           = concat (map (line_p001 parse) (complete_lines p))
    \<and> buffer (fst (feed_chunks (feed_p001 parse) new_reassembler cs)) = t
    \<and> snd (feed_chunks (feed_p000 parse) new_reassembler cs)
           = concat (map (line_p000 parse) (complete_lines p))
    \<and> buffer (fst (feed_chunks (feed_p000 parse) new_reassembler cs)) = t
    \<and> subseq (snd (feed_chunks (feed_fis parse) new_reassembler cs))
           (concat (map (line_fis parse []) (complete_lines p)))
    \<and> buffer (fst (feed_chunks (feed_fis parse) new_reassembler cs)) = t
    \<and> (opened (connect parse userThreads req (with_timeout req)) userLogin
         \<and> map fst (reads req) = map (\<lambda>c. Read (Some c) False) cs \<and> [] \<notin> set cs \<longrightarrow>
         events (handle_p001 parse userThreads req) =
           [Ack, Text (JStr (greeting_p001 userLogin))]
           @ map Text (concat (map (line_p001 parse) (complete_lines p)))
           @ (if concat (map (line_p001 parse) (complete_lines p)) = []
              then [Text (JStr fallback_text)] else [])
           @ [Done])
    \<and> (opened (connect parse userThreads req (run_fetch req)) userLogin
         \<and> map fst (reads req) = map (\<lambda>c. Read (Some c) False) cs \<longrightarrow>
         events (handle_fis parse userThreads req) =
           [Ack, Text (JStr (greeting_fis userLogin))]
           @ map Text (snd (feed_chunks (feed_fis parse) new_reassembler cs)) @ [Done])"
proof -
  note split = tail_split [OF assms(2,3)]
  have p001: "snd (feed_chunks (feed_p001 parse) new_reassembler cs)
           = concat (map (line_p001 parse) (complete_lines p))"
    by (simp add: feed_chunks_p001 assms(1) split)
  have p000: "snd (feed_chunks (feed_p000 parse) new_reassembler cs)
           = concat (map (line_p000 parse) (complete_lines p))"
    by (simp add: feed_chunks_p000 assms(1) split)
  have fis: "subseq (snd (feed_chunks (feed_fis parse) new_reassembler cs))
           (concat (map (line_fis parse []) (complete_lines p)))"
    using feed_chunks_fis_subseq [of parse cs] by (simp add: assms(1) split)
  have buf: "buffer (fst (feed_chunks (feed_with line) new_reassembler cs)) = t" for line
    by (simp add: feed_chunks_buffer assms(1) split)
  have h001: "events (handle_p001 parse userThreads req) =
           [Ack, Text (JStr (greeting_p001 userLogin))]
           @ map Text (concat (map (line_p001 parse) (complete_lines p)))
           @ (if concat (map (line_p001 parse) (complete_lines p)) = []
              then [Text (JStr fallback_text)] else [])
           @ [Done]"
    if h: "opened (connect parse userThreads req (with_timeout req)) userLogin
         \<and> map fst (reads req) = map (\<lambda>c. Read (Some c) False) cs \<and> [] \<notin> set cs"
  proof -
    from h have "fst (stream_p001 parse req)
        = map Fragment (concat (map (line_p001 parse) (complete_lines p)))"
      by (simp add: stream_p001_def loop_p001_data p001)
    with h show ?thesis
      by (simp add: events_p001 [of parse userThreads req userLogin] fragments_of_map comp_def)
  qed
  have hfis: "events (handle_fis parse userThreads req) =
           [Ack, Text (JStr (greeting_fis userLogin))]
           @ map Text (snd (feed_chunks (feed_fis parse) new_reassembler cs)) @ [Done]"
    if h: "opened (connect parse userThreads req (run_fetch req)) userLogin
         \<and> map fst (reads req) = map (\<lambda>c. Read (Some c) False) cs"
  proof -
    from h have "stream_fis parse req = (snd (feed_chunks (feed_fis parse) new_reassembler cs), Inr ())"
      by (simp add: stream_fis_def loop_fis_data)
    with h show ?thesis
      by (simp add: events_fis [of parse userThreads req userLogin])
  qed
  from p001 p000 fis buf [of "\<lambda>buf. line_p001 parse"] buf [of "\<lambda>buf. line_p000 parse"]
    buf [of "line_fis parse"] h001 hfis
  show ?thesis
    by (simp add: feed_p001_with feed_p000_with feed_fis_with)
qed

theorem unterminated_tail_dropped_witness:
  "decoded new_decoder [ascii hello_line @ [0x0A], ascii hello_line]
     = (lit hello_line @ [0x0A]) @ lit hello_line
   \<and> line_p001 json_parse (lit hello_line) = [JStr (lit ''Hello'')]
   \<and> snd (feed_chunks (feed_p001 json_parse) new_reassembler [ascii hello_line @ [0x0A], ascii hello_line])
     = [JStr (lit ''Hello'')]
   \<and> buffer (fst (feed_chunks (feed_p001 json_parse) new_reassembler
        [ascii hello_line @ [0x0A], ascii hello_line])) = lit hello_line
   \<and> events (handle_p001 json_parse Map.empty tail_request)
     = [Ack, Text (JStr (greeting_p001 (lit ''octocat''))), Text (JStr (lit ''Hello'')), Done]"
proof -
  let ?cs = "[ascii hello_line @ [0x0A], ascii hello_line]"
  let ?p = "lit hello_line @ [0x0A]"
  have "\<forall>w \<in> set (ascii hello_line @ 0x0A # ascii hello_line). w < 0x80"
    using hello_line_ascii by simp
  then have "snd (decode new_decoder (ascii hello_line @ 0x0A # ascii hello_line))
      = map ucast (ascii hello_line @ 0x0A # ascii hello_line)"
    by (rule decode_ascii_new)
  then have dec: "decoded new_decoder ?cs = ?p @ lit hello_line"
    by (simp add: decoded_def map_ucast_ascii)
  have ends: "?p = [] \<or> last ?p = 0x0A" by simp
  have lines: "complete_lines ?p = [lit hello_line]"
    using split_nl_line [OF hello_line_no_newline, of "[]"] by (simp add: complete_lines_def)
  have o: "opened (connect json_parse Map.empty tail_request (with_timeout tail_request))
      (lit ''octocat'')"
    unfolding tail_request_def working_request_run
    by (simp add: working_request_connect opened_def)
  have rs: "map fst (reads tail_request) = map (\<lambda>c. Read (Some c) False) ?cs"
    by (simp add: tail_request_def)
  have ne: "[] \<notin> set ?cs"
    by (simp add: ascii_def hello_line_def)
  from unterminated_tail_dropped [OF dec hello_line_no_newline ends,
      where parse = json_parse and userThreads = Map.empty and req = tail_request
        and userLogin = "lit ''octocat''"]
    o rs ne dec
  show ?thesis
    by (simp add: lines hello_line_p001)
qed

end
